theory Spec2Isabelle
  imports Main "HOL-Library.AList"
begin

section \<open>The neighbor cache of fboss/agent/NeighborCacheImpl-defs.h\<close>

text \<open>
  The cache is generic in the neighbor table (ARP or NDP); the address type of the table
  is the type variable \<open>'a\<close>. MAC addresses, ports, interfaces and VLANs are only ever
  compared for equality by this code, so they are natural numbers here.
\<close>

type_synonym MacAddress = nat
type_synonym PortID = nat
type_synonym InterfaceID = nat
type_synonym VlanID = nat

text \<open>
  Modelled from the spec: the enum NeighborEntryState is declared outside this file; the
  spec lists its values as PENDING, INCOMPLETE, REACHABLE, STALE, PROBE, EXPIRED.
\<close>

datatype NeighborEntryState = PENDING | INCOMPLETE | REACHABLE | STALE | PROBE | EXPIRED

text \<open>
  Every way the code can stop instead of returning: a failed \<open>CHECK\<close>, a failed
  \<open>DCHECK\<close>, the dereference of a null pointer, and \<open>getVlan\<close> on a VLAN that is
  not in the snapshot.
\<close>

datatype error = CheckFailed | DCheckFailed | NullPointer | VlanNotFound

subsection \<open>Entry fields and cache entries\<close>

text \<open>
  Modelled from the spec: the struct EntryFields (NeighborEntry.h) is not part of this file.
  The code reads \<open>fields.ip\<close>, \<open>fields.mac\<close>, \<open>fields.port\<close> and
  \<open>fields.interfaceID\<close>, and \<open>isPending()\<close> on entries and nodes. The spec gives the
  link-layer address as optional (absent while pending) and a pending flag beside it.
\<close>

record 'a EntryFields =
  ip :: 'a
  mac :: "MacAddress option"
  port :: PortID
  interfaceID :: InterfaceID
  pending :: bool

text \<open>
  Modelled from the spec: the two constructors of EntryFields used by the code,
  \<open>EntryFields(ip, mac, port, intf)\<close> for a resolved binding and
  \<open>EntryFields(ip, intf, PENDING)\<close> for a pending one (MAC cleared). The spec does not
  say which port a pending entry carries, so it is the parameter \<open>pp\<close>.
\<close>

definition mkEntryFields :: "'a \<Rightarrow> MacAddress \<Rightarrow> PortID \<Rightarrow> InterfaceID \<Rightarrow> 'a EntryFields" where
  "mkEntryFields a m p i = \<lparr>ip = a, mac = Some m, port = p, interfaceID = i, pending = False\<rparr>"

definition mkPendingFields :: "PortID \<Rightarrow> 'a \<Rightarrow> InterfaceID \<Rightarrow> 'a EntryFields" where
  "mkPendingFields pp a i = \<lparr>ip = a, mac = None, port = pp, interfaceID = i, pending = True\<rparr>"

text \<open>
  Modelled from the spec: the class NeighborCacheEntry is not part of this file. An entry
  holds its fields and its lifecycle state; its timers are not modelled.
\<close>

record 'a Entry =
  m_fields :: "'a EntryFields"
  m_state :: NeighborEntryState

definition mkEntry :: "'a EntryFields \<Rightarrow> NeighborEntryState \<Rightarrow> 'a Entry" where
  "mkEntry f st = \<lparr>m_fields = f, m_state = st\<rparr>"

definition getFields :: "'a Entry \<Rightarrow> 'a EntryFields" where
  "getFields e = m_fields e"

definition isPending :: "'a Entry \<Rightarrow> bool" where
  "isPending e = pending (m_fields e)"

definition getIP :: "'a Entry \<Rightarrow> 'a" where
  "getIP e = ip (m_fields e)"

definition getPortID :: "'a Entry \<Rightarrow> PortID" where
  "getPortID e = port (m_fields e)"

definition getState :: "'a Entry \<Rightarrow> NeighborEntryState" where
  "getState e = m_state e"

text \<open>
  Modelled from the spec: \<open>fieldsMatch\<close> compares the requested values with the entry's,
  ignoring the immutable identity fields (address and interface); \<open>updateFields\<close>
  changes MAC, port and pending flag in place and keeps address and interface;
  \<open>updateState\<close> sets the lifecycle state.
\<close>

definition fieldsMatch :: "'a Entry \<Rightarrow> 'a EntryFields \<Rightarrow> bool" where
  "fieldsMatch e f \<longleftrightarrow>
     mac (m_fields e) = mac f \<and> port (m_fields e) = port f \<and> pending (m_fields e) = pending f"

definition updateFields :: "'a Entry \<Rightarrow> 'a EntryFields \<Rightarrow> 'a Entry" where
  "updateFields e f =
     e\<lparr>m_fields := (m_fields e)\<lparr>mac := mac f, port := port f, pending := pending f\<rparr>\<rparr>"

definition Entry_updateState :: "'a Entry \<Rightarrow> NeighborEntryState \<Rightarrow> 'a Entry" where
  "Entry_updateState e st = e\<lparr>m_state := st\<rparr>"

subsection \<open>The switch state tree\<close>

text \<open>
  Modelled from the spec: SwitchState, Vlan and the neighbor table (ArpTable, NdpTable) are
  not part of this file. A snapshot maps VLAN ids to VLANs, a VLAN holds the neighbor table
  of this cache's address family, and a table maps an address to a node that carries entry
  fields. The table operations are those the code calls: \<open>getNodeIf\<close>, \<open>addEntry\<close>,
  \<open>updateEntry\<close>, \<open>removeEntry\<close>, \<open>addPendingEntry\<close>, \<open>removeNode\<close>; \<open>modify\<close>
  is the copy-on-write step, which here builds the new snapshot around the new table.
\<close>

record 'a Vlan =
  neighborTable :: "'a \<rightharpoonup> 'a EntryFields"

record 'a SwitchState =
  vlans :: "VlanID \<rightharpoonup> 'a Vlan"

definition getNodeIf :: "('a \<rightharpoonup> 'a EntryFields) \<Rightarrow> 'a \<Rightarrow> 'a EntryFields option" where
  "getNodeIf table a = table a"

definition NTable_addEntry :: "('a \<rightharpoonup> 'a EntryFields) \<Rightarrow> 'a EntryFields \<Rightarrow> ('a \<rightharpoonup> 'a EntryFields)" where
  "NTable_addEntry table f = table(ip f \<mapsto> f)"

definition NTable_updateEntry :: "('a \<rightharpoonup> 'a EntryFields) \<Rightarrow> 'a EntryFields \<Rightarrow> ('a \<rightharpoonup> 'a EntryFields)" where
  "NTable_updateEntry table f = table(ip f \<mapsto> f)"

definition NTable_removeEntry :: "('a \<rightharpoonup> 'a EntryFields) \<Rightarrow> 'a \<Rightarrow> ('a \<rightharpoonup> 'a EntryFields)" where
  "NTable_removeEntry table a = table(a := None)"

definition NTable_removeNode :: "('a \<rightharpoonup> 'a EntryFields) \<Rightarrow> 'a \<Rightarrow> ('a \<rightharpoonup> 'a EntryFields)" where
  "NTable_removeNode table a = table(a := None)"

definition NTable_addPendingEntry ::
  "PortID \<Rightarrow> ('a \<rightharpoonup> 'a EntryFields) \<Rightarrow> 'a \<Rightarrow> InterfaceID \<Rightarrow> ('a \<rightharpoonup> 'a EntryFields)" where
  "NTable_addPendingEntry pp table a i = table(a \<mapsto> mkPendingFields pp a i)"

definition modifyTable ::
  "'a SwitchState \<Rightarrow> VlanID \<Rightarrow> 'a Vlan \<Rightarrow> ('a \<rightharpoonup> 'a EntryFields) \<Rightarrow> 'a SwitchState" where
  "modifyTable state vlanID vlan table =
     state\<lparr>vlans := (vlans state)(vlanID \<mapsto> vlan\<lparr>neighborTable := table\<rparr>)\<rparr>"

text \<open>
  Modelled from the spec: the VLAN map is not part of this file. \<open>getVlanIf\<close> answers
  with a null pointer for a VLAN that is not there (the code tests its result);
  \<open>getVlan\<close> has no such answer (the code uses its result untested), so a missing VLAN
  is an error there.
\<close>

definition getVlanIf :: "'a SwitchState \<Rightarrow> VlanID \<Rightarrow> 'a Vlan option" where
  "getVlanIf state vlanID = vlans state vlanID"

definition getVlan :: "'a SwitchState \<Rightarrow> VlanID \<Rightarrow> error + 'a Vlan" where
  "getVlan state vlanID =
     (case vlans state vlanID of None \<Rightarrow> Inl VlanNotFound | Some vlan \<Rightarrow> Inr vlan)"

text \<open>The node a snapshot holds for an address under a VLAN, if there is one.\<close>

definition nodeOf :: "'a SwitchState \<Rightarrow> VlanID \<Rightarrow> 'a \<Rightarrow> 'a EntryFields option" where
  "nodeOf s v a = (case getVlanIf s v of None \<Rightarrow> None | Some vl \<Rightarrow> getNodeIf (neighborTable vl) a)"

subsection \<open>Submitted state updates and the cache\<close>

text \<open>
  The three closures the code hands to the switch, with the values they capture:
  \<open>[fields, vlanID]\<close> in programEntry, \<open>[fields, vlanID, force]\<close> in
  programPendingEntry and \<open>[this, ip, &flushed]\<close> in flushEntry. The name string given
  with each update is only logged and is left out.
\<close>

datatype 'a StateUpdate =
    ProgramEntryFn "'a EntryFields" VlanID
  | ProgramPendingEntryFn "'a EntryFields" VlanID bool
  | FlushEntryFn 'a

text \<open>
  Modelled from the spec: SwSwitch is not part of this file. It holds the latest committed
  snapshot and the updates submitted and not yet applied; updates are applied one after
  the other, each to the snapshot its predecessor left.
\<close>

record 'a SwSwitch =
  appliedState :: "'a SwitchState"
  pendingUpdates :: "'a StateUpdate list"

text \<open>
  The cache: \<open>m_entries\<close> is a map keyed by address, kept as an association list whose
  order is the iteration order of the container.
\<close>

record 'a NeighborCacheImpl =
  m_entries :: "('a \<times> 'a Entry) list"
  m_intfID :: InterfaceID
  m_vlanID :: VlanID
  m_sw :: "'a SwSwitch"

definition SwSwitch_updateState :: "'a StateUpdate \<Rightarrow> 'a SwSwitch \<Rightarrow> 'a SwSwitch" where
  "SwSwitch_updateState u sw = sw\<lparr>pendingUpdates := pendingUpdates sw @ [u]\<rparr>"

definition getCacheEntry :: "'a NeighborCacheImpl \<Rightarrow> 'a \<Rightarrow> 'a Entry option" where
  "getCacheEntry c a = map_of (m_entries c) a"

definition setCacheEntry :: "'a Entry \<Rightarrow> 'a NeighborCacheImpl \<Rightarrow> 'a NeighborCacheImpl" where
  "setCacheEntry entry c = c\<lparr>m_entries := AList.update (getIP entry) entry (m_entries c)\<rparr>"

text \<open>
  removeEntry: the asynchronous destruction of the erased entry on the background thread
  (\<open>Entry::destroy\<close>) has no effect on the map or the tree and is not modelled.
\<close>

definition removeEntry :: "'a \<Rightarrow> 'a NeighborCacheImpl \<Rightarrow> bool \<times> 'a NeighborCacheImpl" where
  "removeEntry a c =
     (case map_of (m_entries c) a of
        None \<Rightarrow> (False, c)
      | Some _ \<Rightarrow> (True, c\<lparr>m_entries := AList.delete a (m_entries c)\<rparr>))"

subsection \<open>The tree transforms\<close>

text \<open>
  \<open>Interface::isIpAttached\<close> is consumed as a capability: the parameter \<open>att\<close>.
\<close>

definition checkVlanAndIntf ::
  "('a \<Rightarrow> InterfaceID \<Rightarrow> 'a SwitchState \<Rightarrow> bool) \<Rightarrow> 'a SwitchState \<Rightarrow> 'a EntryFields \<Rightarrow> VlanID \<Rightarrow> bool" where
  "checkVlanAndIntf att state flds vlanID =
     (case getVlanIf state vlanID of
        None \<Rightarrow> False
      | Some vlan \<Rightarrow>
          if \<not> att (ip flds) (interfaceID flds) state then False else True)"

definition programEntry_updateFn ::
  "('a \<Rightarrow> InterfaceID \<Rightarrow> 'a SwitchState \<Rightarrow> bool) \<Rightarrow> 'a EntryFields \<Rightarrow> VlanID \<Rightarrow> 'a SwitchState
   \<Rightarrow> error + 'a SwitchState option" where
  "programEntry_updateFn att flds vlanID state =
     (if \<not> checkVlanAndIntf att state flds vlanID then Inr None
      else case getVlanIf state vlanID of
        None \<Rightarrow> Inl NullPointer
      | Some vlan \<Rightarrow>
          (let table = neighborTable vlan in
           case getNodeIf table (ip flds) of
             None \<Rightarrow> Inr (Some (modifyTable state vlanID vlan (NTable_addEntry table flds)))
           | Some node \<Rightarrow>
               if mac node = mac flds \<and> port node = port flds \<and>
                  interfaceID node = interfaceID flds \<and> \<not> pending node
               then Inr None
               else Inr (Some (modifyTable state vlanID vlan (NTable_updateEntry table flds)))))"

definition programPendingEntry_updateFn ::
  "PortID \<Rightarrow> ('a \<Rightarrow> InterfaceID \<Rightarrow> 'a SwitchState \<Rightarrow> bool) \<Rightarrow> 'a EntryFields \<Rightarrow> VlanID \<Rightarrow> bool
   \<Rightarrow> 'a SwitchState \<Rightarrow> error + 'a SwitchState option" where
  "programPendingEntry_updateFn pp att flds vlanID force state =
     (if \<not> checkVlanAndIntf att state flds vlanID then Inr None
      else case getVlanIf state vlanID of
        None \<Rightarrow> Inl NullPointer
      | Some vlan \<Rightarrow>
          (let table = neighborTable vlan in
           case getNodeIf table (ip flds) of
             Some node \<Rightarrow>
               if \<not> force then Inr None
               else Inr (Some (modifyTable state vlanID vlan
                      (NTable_addPendingEntry pp (NTable_removeEntry table (ip flds))
                         (ip flds) (interfaceID flds))))
           | None \<Rightarrow>
               Inr (Some (modifyTable state vlanID vlan
                      (NTable_addPendingEntry pp table (ip flds) (interfaceID flds))))))"

text \<open>
  flushEntryFromSwitchState is a member of the cache: its \<open>DCHECK\<close> reads the cache map as
  it is when the update is applied. The result pairs the returned flag with the snapshot
  left in \<open>*state\<close>. A build without debug checks has no \<open>DCHECK\<close>; the
  properties below apply this transform with the address out of the cache, or to a
  snapshot without the VLAN (where \<open>getVlan\<close> comes first), and there both builds do
  the same.
\<close>

definition flushEntryFromSwitchState ::
  "'a NeighborCacheImpl \<Rightarrow> 'a SwitchState \<Rightarrow> 'a Vlan \<Rightarrow> 'a \<Rightarrow> error + (bool \<times> 'a SwitchState)" where
  "flushEntryFromSwitchState c state vlan a =
     (if getCacheEntry c a \<noteq> None then Inl DCheckFailed
      else let table = neighborTable vlan in
        case getNodeIf table a of
          None \<Rightarrow> Inr (False, state)
        | Some entry \<Rightarrow>
            Inr (True, modifyTable state (m_vlanID c) vlan (NTable_removeNode table a)))"

text \<open>
  The update function of flushEntry; the first component of its result is the value it
  leaves in the captured variable \<open>flushed\<close>.
\<close>

definition flushEntry_updateFn ::
  "'a NeighborCacheImpl \<Rightarrow> 'a \<Rightarrow> 'a SwitchState \<Rightarrow> error + (bool \<times> 'a SwitchState option)" where
  "flushEntry_updateFn c a state =
     (case getVlan state (m_vlanID c) of
        Inl e \<Rightarrow> Inl e
      | Inr vlan \<Rightarrow>
          (case flushEntryFromSwitchState c state vlan a of
             Inl e \<Rightarrow> Inl e
           | Inr (changed, newState) \<Rightarrow>
               if changed then Inr (True, Some newState) else Inr (False, None)))"

definition applyUpdate ::
  "PortID \<Rightarrow> ('a \<Rightarrow> InterfaceID \<Rightarrow> 'a SwitchState \<Rightarrow> bool) \<Rightarrow> 'a NeighborCacheImpl \<Rightarrow> 'a StateUpdate
   \<Rightarrow> 'a SwitchState \<Rightarrow> error + 'a SwitchState option" where
  "applyUpdate pp att c u state =
     (case u of
        ProgramEntryFn flds vlanID \<Rightarrow> programEntry_updateFn att flds vlanID state
      | ProgramPendingEntryFn flds vlanID force \<Rightarrow>
          programPendingEntry_updateFn pp att flds vlanID force state
      | FlushEntryFn a \<Rightarrow>
          (case flushEntry_updateFn c a state of
             Inl e \<Rightarrow> Inl e
           | Inr (flushed, r) \<Rightarrow> Inr r))"

text \<open>
  Modelled from the spec: the switch applies the submitted updates in order, each to the
  latest snapshot; a no-op leaves the snapshot as it is.
\<close>

fun applyPending ::
  "PortID \<Rightarrow> ('a \<Rightarrow> InterfaceID \<Rightarrow> 'a SwitchState \<Rightarrow> bool) \<Rightarrow> 'a NeighborCacheImpl
   \<Rightarrow> 'a StateUpdate list \<Rightarrow> 'a SwitchState \<Rightarrow> error + 'a SwitchState" where
  "applyPending pp att c [] state = Inr state"
| "applyPending pp att c (u # us) state =
     (case applyUpdate pp att c u state of
        Inl e \<Rightarrow> Inl e
      | Inr None \<Rightarrow> applyPending pp att c us state
      | Inr (Some state') \<Rightarrow> applyPending pp att c us state')"

subsection \<open>The operations of the cache\<close>

definition programEntry :: "'a Entry \<Rightarrow> 'a NeighborCacheImpl \<Rightarrow> error + 'a NeighborCacheImpl" where
  "programEntry entry c =
     (if isPending entry then Inl CheckFailed
      else Inr (c\<lparr>m_sw := SwSwitch_updateState (ProgramEntryFn (getFields entry) (m_vlanID c)) (m_sw c)\<rparr>))"

definition programPendingEntry ::
  "'a Entry \<Rightarrow> bool \<Rightarrow> 'a NeighborCacheImpl \<Rightarrow> error + 'a NeighborCacheImpl" where
  "programPendingEntry entry force c =
     (if \<not> isPending entry then Inl CheckFailed
      else Inr (c\<lparr>m_sw := SwSwitch_updateState
                  (ProgramPendingEntryFn (getFields entry) (m_vlanID c) force) (m_sw c)\<rparr>))"

text \<open>
  setEntryInternal returns the entry pointer (null when there is no entry and \<open>add\<close> is
  false) and the cache; an entry changed in place is written back under its key.
\<close>

definition setEntryInternal ::
  "'a EntryFields \<Rightarrow> NeighborEntryState \<Rightarrow> bool \<Rightarrow> 'a NeighborCacheImpl
   \<Rightarrow> 'a Entry option \<times> 'a NeighborCacheImpl" where
  "setEntryInternal flds st add c =
     (case getCacheEntry c (ip flds) of
        Some entry \<Rightarrow>
          (let e1 = (if \<not> fieldsMatch entry flds then updateFields entry flds else entry);
               e2 = Entry_updateState e1 st
           in (Some e2, c\<lparr>m_entries := AList.update (ip flds) e2 (m_entries c)\<rparr>))
      | None \<Rightarrow>
          if add then (let to_store = mkEntry flds st in (Some to_store, setCacheEntry to_store c))
          else (None, c))"

fun repopulate :: "'a EntryFields list \<Rightarrow> 'a NeighborCacheImpl \<Rightarrow> 'a NeighborCacheImpl" where
  "repopulate [] c = c"
| "repopulate (entry # rest) c =
     (let st = (if pending entry then INCOMPLETE else STALE)
      in repopulate rest (snd (setEntryInternal entry st True c)))"

text \<open>
  setEntry calls setEntryInternal without the \<open>add\<close> argument; its default is in the
  header, which is not part of this file. Modelled from the spec: an upsert creates the
  entry when there is none, so the default is true.
\<close>

definition setEntry ::
  "'a \<Rightarrow> MacAddress \<Rightarrow> PortID \<Rightarrow> NeighborEntryState \<Rightarrow> 'a NeighborCacheImpl
   \<Rightarrow> error + 'a NeighborCacheImpl" where
  "setEntry a m p st c =
     (case setEntryInternal (mkEntryFields a m p (m_intfID c)) st True c of
        (None, c') \<Rightarrow> Inl NullPointer
      | (Some entry, c') \<Rightarrow> programEntry entry c')"

definition setExistingEntry ::
  "'a \<Rightarrow> MacAddress \<Rightarrow> PortID \<Rightarrow> NeighborEntryState \<Rightarrow> 'a NeighborCacheImpl
   \<Rightarrow> error + 'a NeighborCacheImpl" where
  "setExistingEntry a m p st c =
     (case setEntryInternal (mkEntryFields a m p (m_intfID c)) st False c of
        (None, c') \<Rightarrow> Inr c'
      | (Some entry, c') \<Rightarrow> programEntry entry c')"

definition setPendingEntry ::
  "PortID \<Rightarrow> 'a \<Rightarrow> bool \<Rightarrow> 'a NeighborCacheImpl \<Rightarrow> error + 'a NeighborCacheImpl" where
  "setPendingEntry pp a force c =
     (if \<not> force \<and> getCacheEntry c a \<noteq> None then Inr c
      else case setEntryInternal (mkPendingFields pp a (m_intfID c)) INCOMPLETE True c of
        (None, c') \<Rightarrow> Inl NullPointer
      | (Some newEntry, c') \<Rightarrow> programPendingEntry newEntry force c')"

text \<open>
  Modelled from the spec: the blocking update returns after the commit; every update
  submitted before it has been applied by then, and an error ends the call.
\<close>

definition flushEntry ::
  "PortID \<Rightarrow> ('a \<Rightarrow> InterfaceID \<Rightarrow> 'a SwitchState \<Rightarrow> bool) \<Rightarrow> 'a \<Rightarrow> bool \<Rightarrow> 'a NeighborCacheImpl
   \<Rightarrow> error + (bool \<times> 'a NeighborCacheImpl)" where
  "flushEntry pp att a blocking c =
     (case removeEntry a c of
        (False, c') \<Rightarrow> Inr (False, c')
      | (True, c1) \<Rightarrow>
          if blocking then
            (case applyPending pp att c1 (pendingUpdates (m_sw c1)) (appliedState (m_sw c1)) of
               Inl e \<Rightarrow> Inl e
             | Inr s1 \<Rightarrow>
                 (case flushEntry_updateFn c1 a s1 of
                    Inl e \<Rightarrow> Inl e
                  | Inr (flushed, r) \<Rightarrow>
                      Inr (flushed,
                           c1\<lparr>m_sw := \<lparr>appliedState = (case r of None \<Rightarrow> s1 | Some s2 \<Rightarrow> s2),
                                      pendingUpdates = []\<rparr>\<rparr>)))
          else Inr (True, c1\<lparr>m_sw := SwSwitch_updateState (FlushEntryFn a) (m_sw c1)\<rparr>))"

definition flushEntryBlocking ::
  "PortID \<Rightarrow> ('a \<Rightarrow> InterfaceID \<Rightarrow> 'a SwitchState \<Rightarrow> bool) \<Rightarrow> 'a \<Rightarrow> 'a NeighborCacheImpl
   \<Rightarrow> error + (bool \<times> 'a NeighborCacheImpl)" where
  "flushEntryBlocking pp att a c = flushEntry pp att a True c"

text \<open>
  processEntry: \<open>entry->process()\<close> is the step of the entry's state machine, which is
  not part of this file; it is the parameter \<open>process\<close>, and the entry it leaves is
  written back under its key. The call \<open>flushEntry(ip)\<close> takes the default of
  \<open>blocking\<close> from the header. Modelled from the spec: the removal is non-blocking.
\<close>

definition processEntry ::
  "('a Entry \<Rightarrow> 'a Entry) \<Rightarrow> PortID \<Rightarrow> ('a \<Rightarrow> InterfaceID \<Rightarrow> 'a SwitchState \<Rightarrow> bool) \<Rightarrow> 'a
   \<Rightarrow> 'a NeighborCacheImpl \<Rightarrow> error + 'a NeighborCacheImpl" where
  "processEntry process pp att a c =
     (case getCacheEntry c a of
        None \<Rightarrow> Inr c
      | Some entry \<Rightarrow>
          (let entry' = process entry;
               c1 = c\<lparr>m_entries := AList.update a entry' (m_entries c)\<rparr>
           in if getState entry' = EXPIRED then
                (case flushEntry pp att a False c1 of
                   Inl e \<Rightarrow> Inl e
                 | Inr (r, c2) \<Rightarrow> Inr c2)
              else Inr c1))"

definition isSolicited :: "('a Entry \<Rightarrow> bool) \<Rightarrow> 'a \<Rightarrow> 'a NeighborCacheImpl \<Rightarrow> bool" where
  "isSolicited isProbing a c =
     (case getCacheEntry c a of None \<Rightarrow> False | Some entry \<Rightarrow> isProbing entry)"

text \<open>
  portDown walks the map; \<open>item.second\<close> is the entry stored under the key of the item.
  setPendingEntry with \<open>force\<close> changes that entry in place and adds no key, so the walk
  is over the items the map had at the start.
\<close>

fun portDown_loop ::
  "PortID \<Rightarrow> PortID \<Rightarrow> ('a \<times> 'a Entry) list \<Rightarrow> 'a NeighborCacheImpl \<Rightarrow> error + 'a NeighborCacheImpl" where
  "portDown_loop pp p [] c = Inr c"
| "portDown_loop pp p (item # items) c =
     (if getPortID (snd item) \<noteq> p then portDown_loop pp p items c
      else case setPendingEntry pp (getIP (snd item)) True c of
        Inl e \<Rightarrow> Inl e
      | Inr c' \<Rightarrow> portDown_loop pp p items c')"

definition portDown :: "PortID \<Rightarrow> PortID \<Rightarrow> 'a NeighborCacheImpl \<Rightarrow> error + 'a NeighborCacheImpl" where
  "portDown pp p c = portDown_loop pp p (m_entries c) c"

text \<open>
  The map as the container keeps it: one item per key, and every entry under the address
  it carries (setCacheEntry stores an entry under \<open>entry->getIP()\<close>).
\<close>

definition wellFormed :: "'a NeighborCacheImpl \<Rightarrow> bool" where
  "wellFormed c \<longleftrightarrow>
     distinct (map fst (m_entries c)) \<and> (\<forall>(k, e) \<in> set (m_entries c). getIP e = k)"

subsection \<open>Sequences of calls\<close>

text \<open>
  The public operations that program an entry, and a sequence of calls of them; a call that
  stops with an error ends the sequence.
\<close>

datatype 'a Operation =
    SetEntry 'a MacAddress PortID NeighborEntryState
  | SetExistingEntry 'a MacAddress PortID NeighborEntryState
  | SetPendingEntry 'a bool
  | Repopulate "'a EntryFields list"
  | PortDown PortID

fun call :: "PortID \<Rightarrow> 'a Operation \<Rightarrow> 'a NeighborCacheImpl \<Rightarrow> error + 'a NeighborCacheImpl" where
  "call pp (SetEntry a m p st) c = setEntry a m p st c"
| "call pp (SetExistingEntry a m p st) c = setExistingEntry a m p st c"
| "call pp (SetPendingEntry a force) c = setPendingEntry pp a force c"
| "call pp (Repopulate table) c = Inr (repopulate table c)"
| "call pp (PortDown p) c = portDown pp p c"

fun calls :: "PortID \<Rightarrow> 'a Operation list \<Rightarrow> 'a NeighborCacheImpl \<Rightarrow> error + 'a NeighborCacheImpl" where
  "calls pp [] c = Inr c"
| "calls pp (x # xs) c = (case call pp x c of Inl e \<Rightarrow> Inl e | Inr c' \<Rightarrow> calls pp xs c')"

subsection \<open>Concrete values\<close>

text \<open>A cache for VLAN 3 on interface 7, and snapshots to apply its transforms to.\<close>

definition ex_switch :: "nat SwSwitch" where
  "ex_switch = \<lparr>appliedState = \<lparr>vlans = Map.empty\<rparr>, pendingUpdates = []\<rparr>"

definition ex_empty_cache :: "nat NeighborCacheImpl" where
  "ex_empty_cache = \<lparr>m_entries = [], m_intfID = 7, m_vlanID = 3, m_sw = ex_switch\<rparr>"

definition ex_vlan :: "nat Vlan" where
  "ex_vlan = \<lparr>neighborTable = Map.empty\<rparr>"

definition ex_state :: "nat SwitchState" where
  "ex_state = \<lparr>vlans = [3 \<mapsto> ex_vlan]\<rparr>"

definition ex_att :: "nat \<Rightarrow> InterfaceID \<Rightarrow> nat SwitchState \<Rightarrow> bool" where
  "ex_att a i s = True"

definition ex_no_att :: "nat \<Rightarrow> InterfaceID \<Rightarrow> nat SwitchState \<Rightarrow> bool" where
  "ex_no_att a i s = False"

definition ex_no_vlan :: "nat SwitchState" where
  "ex_no_vlan = \<lparr>vlans = Map.empty\<rparr>"

definition ex_fields :: "nat EntryFields" where
  "ex_fields = mkEntryFields 5 11 2 7"

definition ex_cache_one :: "nat NeighborCacheImpl" where
  "ex_cache_one = \<lparr>m_entries = [(5, mkEntry ex_fields REACHABLE)], m_intfID = 7, m_vlanID = 3,
     m_sw = ex_switch\<rparr>"

definition ex_vlan_one :: "nat Vlan" where
  "ex_vlan_one = \<lparr>neighborTable = [5 \<mapsto> ex_fields]\<rparr>"

definition ex_state_one :: "nat SwitchState" where
  "ex_state_one = \<lparr>vlans = [3 \<mapsto> ex_vlan_one]\<rparr>"

definition ex_expire :: "nat Entry \<Rightarrow> nat Entry" where
  "ex_expire e = Entry_updateState e EXPIRED"

definition ex_age :: "nat Entry \<Rightarrow> nat Entry" where
  "ex_age e = Entry_updateState e STALE"

definition ex_pending_fields :: "nat EntryFields" where
  "ex_pending_fields = mkPendingFields 0 6 7"

definition ex_moved_fields :: "nat EntryFields" where
  "ex_moved_fields = mkEntryFields 5 12 4 7"

definition ex_other_fields :: "nat EntryFields" where
  "ex_other_fields = mkEntryFields 6 13 4 7"

definition ex_cache_two :: "nat NeighborCacheImpl" where
  "ex_cache_two = \<lparr>m_entries = [(5, mkEntry ex_fields REACHABLE), (6, mkEntry ex_other_fields STALE)],
     m_intfID = 7, m_vlanID = 3, m_sw = ex_switch\<rparr>"

section \<open>Properties\<close>

subsection \<open>setEntry on a fresh address\<close>

lemma getCacheEntry_setCacheEntry:
  "getCacheEntry (setCacheEntry e c) a = (if a = getIP e then Some e else getCacheEntry c a)"
  by (simp add: getCacheEntry_def setCacheEntry_def update_conv')

lemma setEntryInternal_absent_add:
  "getCacheEntry c (ip f) = None \<Longrightarrow>
   setEntryInternal f st True c = (Some (mkEntry f st), setCacheEntry (mkEntry f st) c)"
  by (simp add: setEntryInternal_def Let_def)

lemma programEntry_updateFn_add:
  assumes "getVlanIf s v = Some vl" and "att (ip f) (interfaceID f) s"
    and "getNodeIf (neighborTable vl) (ip f) = None"
  shows "programEntry_updateFn att f v s =
     Inr (Some (modifyTable s v vl (NTable_addEntry (neighborTable vl) f)))"
  using assms by (simp add: programEntry_updateFn_def checkVlanAndIntf_def Let_def)

lemma getVlanIf_modifyTable:
  "getVlanIf (modifyTable s v vl t) v = Some (vl\<lparr>neighborTable := t\<rparr>)"
  by (simp add: getVlanIf_def modifyTable_def)

text \<open>
  C1: for an address with no cache entry, setEntry with state REACHABLE succeeds, the
  lookup then yields an entry with exactly that MAC, port and state REACHABLE, and one
  transform is submitted; applied to a snapshot in which the owning VLAN exists, the
  address is attached and the table has no node for it, the transform returns a new
  snapshot whose table has a node for the address with that MAC, port and interface.
\<close>

theorem setEntry_fresh:
  assumes "getCacheEntry c a = None"
    and "getVlanIf s (m_vlanID c) = Some vl"
    and "att a (m_intfID c) s"
    and "getNodeIf (neighborTable vl) a = None"
  shows "\<exists>c' e u s' vl' node.
      setEntry a m p REACHABLE c = Inr c' \<and>
      getCacheEntry c' a = Some e \<and>
      ip (m_fields e) = a \<and> mac (m_fields e) = Some m \<and> port (m_fields e) = p \<and>
      m_state e = REACHABLE \<and>
      pendingUpdates (m_sw c') = pendingUpdates (m_sw c) @ [u] \<and>
      applyUpdate pp att c2 u s = Inr (Some s') \<and>
      getVlanIf s' (m_vlanID c) = Some vl' \<and>
      getNodeIf (neighborTable vl') a = Some node \<and>
      mac node = Some m \<and> port node = p \<and> interfaceID node = m_intfID c"
proof -
  let ?f = "mkEntryFields a m p (m_intfID c)"
  let ?e = "mkEntry ?f REACHABLE"
  let ?u = "ProgramEntryFn ?f (m_vlanID c)"
  let ?c1 = "setCacheEntry ?e c"
  let ?c' = "?c1\<lparr>m_sw := SwSwitch_updateState ?u (m_sw ?c1)\<rparr>"
  let ?s' = "modifyTable s (m_vlanID c) vl (NTable_addEntry (neighborTable vl) ?f)"
  have ipf: "ip ?f = a" by (simp add: mkEntryFields_def)
  have internal: "setEntryInternal ?f REACHABLE True c = (Some ?e, ?c1)"
    using assms(1) by (simp add: setEntryInternal_absent_add ipf)
  have run: "setEntry a m p REACHABLE c = Inr ?c'"
  proof -
    have np: "\<not> isPending ?e" by (simp add: isPending_def mkEntry_def mkEntryFields_def)
    have gf: "getFields ?e = ?f" by (simp add: getFields_def mkEntry_def)
    have vid: "m_vlanID ?c1 = m_vlanID c" by (simp add: setCacheEntry_def)
    show ?thesis
      by (simp add: setEntry_def internal programEntry_def np gf vid)
  qed
  have look: "getCacheEntry ?c' a = Some ?e"
    by (simp add: getCacheEntry_def setCacheEntry_def update_conv' getIP_def mkEntry_def ipf)
  have queue: "pendingUpdates (m_sw ?c') = pendingUpdates (m_sw c) @ [?u]"
    by (simp add: SwSwitch_updateState_def setCacheEntry_def)
  have app: "applyUpdate pp att c2 ?u s = Inr (Some ?s')"
    using assms(2-4)
    by (simp add: applyUpdate_def programEntry_updateFn_add ipf mkEntryFields_def)
  have vl': "getVlanIf ?s' (m_vlanID c) = Some (vl\<lparr>neighborTable := NTable_addEntry (neighborTable vl) ?f\<rparr>)"
    by (rule getVlanIf_modifyTable)
  have node: "getNodeIf (NTable_addEntry (neighborTable vl) ?f) a = Some ?f"
    by (simp add: getNodeIf_def NTable_addEntry_def ipf)
  show ?thesis
    apply (rule exI[of _ ?c'], rule exI[of _ ?e], rule exI[of _ ?u], rule exI[of _ ?s'])
    apply (rule exI[of _ "vl\<lparr>neighborTable := NTable_addEntry (neighborTable vl) ?f\<rparr>"])
    apply (rule exI[of _ ?f])
    using run look queue app vl' node
    by (simp add: mkEntry_def mkEntryFields_def)
qed

theorem setEntry_fresh_witness:
  "getCacheEntry ex_empty_cache (5::nat) = None \<and>
   getVlanIf ex_state (m_vlanID ex_empty_cache) = Some ex_vlan \<and>
   ex_att 5 (m_intfID ex_empty_cache) ex_state \<and>
   getNodeIf (neighborTable ex_vlan) 5 = None \<and>
   (\<exists>c' e u s' vl' node.
      setEntry 5 11 2 REACHABLE ex_empty_cache = Inr c' \<and>
      getCacheEntry c' 5 = Some e \<and>
      ip (m_fields e) = 5 \<and> mac (m_fields e) = Some 11 \<and> port (m_fields e) = 2 \<and>
      m_state e = REACHABLE \<and>
      pendingUpdates (m_sw c') = pendingUpdates (m_sw ex_empty_cache) @ [u] \<and>
      applyUpdate 0 ex_att ex_empty_cache u ex_state = Inr (Some s') \<and>
      getVlanIf s' (m_vlanID ex_empty_cache) = Some vl' \<and>
      getNodeIf (neighborTable vl') 5 = Some node \<and>
      mac node = Some 11 \<and> port node = 2 \<and> interfaceID node = m_intfID ex_empty_cache)"
proof -
  have h1: "getCacheEntry ex_empty_cache (5::nat) = None"
    by (simp add: getCacheEntry_def ex_empty_cache_def)
  have h2: "getVlanIf ex_state (m_vlanID ex_empty_cache) = Some ex_vlan"
    by (simp add: getVlanIf_def ex_state_def ex_empty_cache_def)
  have h3: "ex_att 5 (m_intfID ex_empty_cache) ex_state"
    by (simp add: ex_att_def)
  have h4: "getNodeIf (neighborTable ex_vlan) 5 = None"
    by (simp add: getNodeIf_def ex_vlan_def)
  show ?thesis
    using h1 h2 h3 h4
      setEntry_fresh [where att = ex_att and c = ex_empty_cache and a = 5 and s = ex_state
        and vl = ex_vlan and m = 11 and p = 2 and pp = 0 and ?c2.0 = ex_empty_cache,
        OF h1 h2 h3 h4]
    by blast
qed

subsection \<open>A VLAN deleted before the transform is applied\<close>

text \<open>
  When the owning VLAN is not in the snapshot, the transforms of programEntry and
  programPendingEntry return the no-op signal; the transform of flushEntry calls
  \<open>getVlan\<close> and stops with an error.
\<close>

lemma programEntry_updateFn_vlan_deleted:
  "getVlanIf s v = None \<Longrightarrow> programEntry_updateFn att f v s = Inr None"
  by (simp add: programEntry_updateFn_def checkVlanAndIntf_def)

lemma programPendingEntry_updateFn_vlan_deleted:
  "getVlanIf s v = None \<Longrightarrow> programPendingEntry_updateFn pp att f v force s = Inr None"
  by (simp add: programPendingEntry_updateFn_def checkVlanAndIntf_def)

lemma flushEntry_updateFn_vlan_deleted:
  "getVlanIf s (m_vlanID c) = None \<Longrightarrow> flushEntry_updateFn c a s = Inl VlanNotFound"
  by (simp add: flushEntry_updateFn_def getVlan_def getVlanIf_def)

text \<open>
  C2: the three transforms on a snapshot from which VLAN 3 has been deleted. The two
  program transforms return the no-op signal; the transform submitted by flushEntry does
  not: it ends in the error of \<open>getVlan\<close>.
\<close>

theorem flush_transform_vlan_deleted:
  "getVlanIf ex_no_vlan (m_vlanID ex_empty_cache) = None \<and>
   applyUpdate 0 ex_att ex_empty_cache (ProgramEntryFn ex_fields 3) ex_no_vlan = Inr None \<and>
   applyUpdate 0 ex_att ex_empty_cache (ProgramPendingEntryFn (mkPendingFields 0 5 7) 3 True) ex_no_vlan
     = Inr None \<and>
   applyUpdate 0 ex_att ex_empty_cache (FlushEntryFn 5) ex_no_vlan = Inl VlanNotFound"
  by (simp add: applyUpdate_def programEntry_updateFn_vlan_deleted
      programPendingEntry_updateFn_vlan_deleted flushEntry_updateFn_vlan_deleted
      getVlanIf_def ex_no_vlan_def ex_empty_cache_def)

subsection \<open>flushEntry\<close>

text \<open>
  flushEntry on an absent address returns false and changes nothing; on a present address
  the non-blocking variant erases the entry, submits the flush transform and returns true.
\<close>

lemma removeEntry_absent:
  "getCacheEntry c a = None \<Longrightarrow> removeEntry a c = (False, c)"
  by (simp add: removeEntry_def getCacheEntry_def)

lemma removeEntry_present:
  "getCacheEntry c a = Some e \<Longrightarrow>
   removeEntry a c = (True, c\<lparr>m_entries := AList.delete a (m_entries c)\<rparr>)"
  by (simp add: removeEntry_def getCacheEntry_def)

lemma flushEntry_absent:
  "getCacheEntry c a = None \<Longrightarrow> flushEntry pp att a blocking c = Inr (False, c)"
  by (simp add: flushEntry_def removeEntry_absent)

lemma getCacheEntry_delete:
  "getCacheEntry (c\<lparr>m_entries := AList.delete a (m_entries c)\<rparr>) b =
     (if b = a then None else getCacheEntry c b)"
  by (simp add: getCacheEntry_def delete_conv')

lemma flushEntry_present_nonblocking:
  "getCacheEntry c a = Some e \<Longrightarrow>
   flushEntry pp att a False c =
     Inr (True, c\<lparr>m_entries := AList.delete a (m_entries c),
                  m_sw := SwSwitch_updateState (FlushEntryFn a) (m_sw c)\<rparr>)"
  by (simp add: flushEntry_def removeEntry_present)

text \<open>
  C4: the blocking flush of a cached address, the owning VLAN being no longer in the
  tree and no update pending: the call does not return a flag, it ends in the error of
  \<open>getVlan\<close>.
\<close>

theorem flushEntryBlocking_vlan_deleted:
  "getCacheEntry ex_cache_one 5 = Some (mkEntry ex_fields REACHABLE) \<and>
   getVlanIf (appliedState (m_sw ex_cache_one)) (m_vlanID ex_cache_one) = None \<and>
   pendingUpdates (m_sw ex_cache_one) = [] \<and>
   flushEntryBlocking 0 ex_att 5 ex_cache_one = Inl VlanNotFound"
  by (simp add: flushEntryBlocking_def flushEntry_def removeEntry_def getCacheEntry_def
      ex_cache_one_def ex_switch_def flushEntry_updateFn_def getVlan_def getVlanIf_def)

subsection \<open>setPendingEntry without force\<close>

text \<open>
  C5: setPendingEntry without force on an address that has a cache entry returns the cache
  as it was (map and submitted updates); and the pending-add transform without force
  returns the no-op signal on every snapshot that has a node for the address.
\<close>

theorem setPendingEntry_unforced_keeps:
  assumes "getCacheEntry c a = Some e"
    and "getVlanIf s v = Some vl"
    and "getNodeIf (neighborTable vl) (ip f) = Some node"
  shows "setPendingEntry pp a False c = Inr c \<and>
         applyUpdate pp att c2 (ProgramPendingEntryFn f v False) s = Inr None"
  using assms
  by (simp add: setPendingEntry_def applyUpdate_def programPendingEntry_updateFn_def Let_def)

theorem setPendingEntry_unforced_keeps_witness:
  "getCacheEntry ex_cache_one 5 = Some (mkEntry ex_fields REACHABLE) \<and>
   getVlanIf ex_state_one 3 = Some ex_vlan_one \<and>
   getNodeIf (neighborTable ex_vlan_one) (ip (mkPendingFields 0 (5::nat) 7)) = Some ex_fields \<and>
   setPendingEntry 0 5 False ex_cache_one = Inr ex_cache_one \<and>
   applyUpdate 0 ex_att ex_cache_one (ProgramPendingEntryFn (mkPendingFields 0 5 7) 3 False)
     ex_state_one = Inr None"
proof -
  have h1: "getCacheEntry ex_cache_one 5 = Some (mkEntry ex_fields REACHABLE)"
    by (simp add: getCacheEntry_def ex_cache_one_def)
  have h2: "getVlanIf ex_state_one 3 = Some ex_vlan_one"
    by (simp add: getVlanIf_def ex_state_one_def)
  have h3: "getNodeIf (neighborTable ex_vlan_one) (ip (mkPendingFields 0 (5::nat) 7)) = Some ex_fields"
    by (simp add: getNodeIf_def ex_vlan_one_def mkPendingFields_def)
  show ?thesis
    using h1 h2 h3
      setPendingEntry_unforced_keeps [where att = ex_att and pp = 0 and ?c2.0 = ex_cache_one,
        OF h1 h2 h3]
    by simp
qed

subsection \<open>The flush transform and processEntry\<close>

text \<open>
  The flush transform on a snapshot that has the owning VLAN, the address being no longer
  in the cache: it removes the node when there is one and is a no-op otherwise; the
  blocking flush returns exactly that flag.
\<close>

lemma flushEntry_updateFn_removes:
  assumes "getCacheEntry c a = None" and "getVlanIf s (m_vlanID c) = Some vl"
    and "getNodeIf (neighborTable vl) a = Some node"
  shows "flushEntry_updateFn c a s =
     Inr (True, Some (modifyTable s (m_vlanID c) vl (NTable_removeNode (neighborTable vl) a)))"
  using assms
  by (simp add: flushEntry_updateFn_def getVlan_def getVlanIf_def flushEntryFromSwitchState_def
      Let_def)

lemma flushEntry_updateFn_no_node:
  assumes "getCacheEntry c a = None" and "getVlanIf s (m_vlanID c) = Some vl"
    and "getNodeIf (neighborTable vl) a = None"
  shows "flushEntry_updateFn c a s = Inr (False, None)"
  using assms
  by (simp add: flushEntry_updateFn_def getVlan_def getVlanIf_def flushEntryFromSwitchState_def
      Let_def)

lemma getNodeIf_removeNode: "getNodeIf (NTable_removeNode t a) a = None"
  by (simp add: getNodeIf_def NTable_removeNode_def)

lemma flushEntry_blocking_vlan_present:
  assumes "getCacheEntry c a = Some e"
    and "applyPending pp att (c\<lparr>m_entries := AList.delete a (m_entries c)\<rparr>)
           (pendingUpdates (m_sw c)) (appliedState (m_sw c)) = Inr s1"
    and "getVlanIf s1 (m_vlanID c) = Some vl"
  shows "\<exists>c'. flushEntryBlocking pp att a c = Inr (getNodeIf (neighborTable vl) a \<noteq> None, c') \<and>
           getCacheEntry c' a = None \<and> pendingUpdates (m_sw c') = [] \<and>
           appliedState (m_sw c') =
             (if getNodeIf (neighborTable vl) a = None then s1
              else modifyTable s1 (m_vlanID c) vl (NTable_removeNode (neighborTable vl) a))"
proof -
  let ?c1 = "c\<lparr>m_entries := AList.delete a (m_entries c)\<rparr>"
  have gone: "getCacheEntry ?c1 a = None" by (simp add: getCacheEntry_delete)
  have vid: "m_vlanID ?c1 = m_vlanID c" by simp
  have vl1: "getVlanIf s1 (m_vlanID ?c1) = Some vl" using assms(3) by simp
  show ?thesis
  proof (cases "getNodeIf (neighborTable vl) a")
    case None
    have "flushEntry_updateFn ?c1 a s1 = Inr (False, None)"
      by (rule flushEntry_updateFn_no_node [OF gone vl1 None])
    then show ?thesis
      using assms(1,2) None gone
      by (simp add: flushEntryBlocking_def flushEntry_def removeEntry_present getCacheEntry_def)
  next
    case (Some node)
    have "flushEntry_updateFn ?c1 a s1 =
        Inr (True, Some (modifyTable s1 (m_vlanID ?c1) vl (NTable_removeNode (neighborTable vl) a)))"
      by (rule flushEntry_updateFn_removes [OF gone vl1 Some])
    then show ?thesis
      using assms(1,2) Some gone
      by (simp add: flushEntryBlocking_def flushEntry_def removeEntry_present getCacheEntry_def)
  qed
qed

text \<open>
  C8: processEntry on an address without entry returns the cache unchanged, without
  error. With an entry, the entry is replaced by the result of one step of its state
  machine; when that result is not EXPIRED nothing else happens, and when it is EXPIRED the
  non-blocking flush runs: the entry leaves the map, the other entries stay, the tree is
  not touched by the call, one flush transform is submitted, and that transform removes
  the node for the address from every snapshot that has one.
\<close>

theorem processEntry_step:
  "(getCacheEntry c a = None \<longrightarrow> processEntry process pp att a c = Inr c) \<and>
   (\<forall>entry. getCacheEntry c a = Some entry \<longrightarrow>
      (getState (process entry) \<noteq> EXPIRED \<longrightarrow>
         processEntry process pp att a c =
           Inr (c\<lparr>m_entries := AList.update a (process entry) (m_entries c)\<rparr>)) \<and>
      (getState (process entry) = EXPIRED \<longrightarrow>
         (\<exists>c'. processEntry process pp att a c = Inr c' \<and>
            getCacheEntry c' a = None \<and>
            (\<forall>b. b \<noteq> a \<longrightarrow> getCacheEntry c' b = getCacheEntry c b) \<and>
            pendingUpdates (m_sw c') = pendingUpdates (m_sw c) @ [FlushEntryFn a] \<and>
            appliedState (m_sw c') = appliedState (m_sw c) \<and>
            (\<forall>s vl node. getVlanIf s (m_vlanID c) = Some vl \<and>
                 getNodeIf (neighborTable vl) a = Some node \<longrightarrow>
               (\<exists>s' vl'. applyUpdate pp att c' (FlushEntryFn a) s = Inr (Some s') \<and>
                  getVlanIf s' (m_vlanID c) = Some vl' \<and>
                  getNodeIf (neighborTable vl') a = None)))))"
proof (intro conjI allI impI)
  assume "getCacheEntry c a = None"
  then show "processEntry process pp att a c = Inr c"
    by (simp add: processEntry_def)
next
  fix entry
  assume "getCacheEntry c a = Some entry" and "getState (process entry) \<noteq> EXPIRED"
  then show "processEntry process pp att a c =
      Inr (c\<lparr>m_entries := AList.update a (process entry) (m_entries c)\<rparr>)"
    by (simp add: processEntry_def Let_def)
next
  fix entry
  assume present: "getCacheEntry c a = Some entry"
    and expired: "getState (process entry) = EXPIRED"
  let ?c1 = "c\<lparr>m_entries := AList.update a (process entry) (m_entries c)\<rparr>"
  let ?c' = "?c1\<lparr>m_entries := AList.delete a (m_entries ?c1),
                  m_sw := SwSwitch_updateState (FlushEntryFn a) (m_sw ?c1)\<rparr>"
  have p1: "getCacheEntry ?c1 a = Some (process entry)"
    by (simp add: getCacheEntry_def update_conv')
  have fl: "flushEntry pp att a False ?c1 = Inr (True, ?c')"
    by (rule flushEntry_present_nonblocking [OF p1])
  have run: "processEntry process pp att a c = Inr ?c'"
    using present expired fl by (simp add: processEntry_def Let_def)
  have gone: "getCacheEntry ?c' a = None"
    by (simp add: getCacheEntry_def delete_conv')
  have others: "\<forall>b. b \<noteq> a \<longrightarrow> getCacheEntry ?c' b = getCacheEntry c b"
    by (simp add: getCacheEntry_def delete_conv' update_conv')
  have queue: "pendingUpdates (m_sw ?c') = pendingUpdates (m_sw c) @ [FlushEntryFn a]"
    by (simp add: SwSwitch_updateState_def)
  have tree: "appliedState (m_sw ?c') = appliedState (m_sw c)"
    by (simp add: SwSwitch_updateState_def)
  have app: "\<forall>s vl node. getVlanIf s (m_vlanID c) = Some vl \<and>
                 getNodeIf (neighborTable vl) a = Some node \<longrightarrow>
               (\<exists>s' vl'. applyUpdate pp att ?c' (FlushEntryFn a) s = Inr (Some s') \<and>
                  getVlanIf s' (m_vlanID c) = Some vl' \<and>
                  getNodeIf (neighborTable vl') a = None)"
  proof (intro allI impI, elim conjE)
    fix s vl node
    assume v: "getVlanIf s (m_vlanID c) = Some vl"
      and n: "getNodeIf (neighborTable vl) a = Some node"
    have v': "getVlanIf s (m_vlanID ?c') = Some vl" using v by simp
    have "flushEntry_updateFn ?c' a s =
       Inr (True, Some (modifyTable s (m_vlanID ?c') vl (NTable_removeNode (neighborTable vl) a)))"
      by (rule flushEntry_updateFn_removes [OF gone v' n])
    then have "applyUpdate pp att ?c' (FlushEntryFn a) s =
       Inr (Some (modifyTable s (m_vlanID c) vl (NTable_removeNode (neighborTable vl) a)))"
      by (simp add: applyUpdate_def)
    then show "\<exists>s' vl'. applyUpdate pp att ?c' (FlushEntryFn a) s = Inr (Some s') \<and>
                  getVlanIf s' (m_vlanID c) = Some vl' \<and>
                  getNodeIf (neighborTable vl') a = None"
      by (simp add: getVlanIf_modifyTable getNodeIf_removeNode)
  qed
  show "\<exists>c'. processEntry process pp att a c = Inr c' \<and>
            getCacheEntry c' a = None \<and>
            (\<forall>b. b \<noteq> a \<longrightarrow> getCacheEntry c' b = getCacheEntry c b) \<and>
            pendingUpdates (m_sw c') = pendingUpdates (m_sw c) @ [FlushEntryFn a] \<and>
            appliedState (m_sw c') = appliedState (m_sw c) \<and>
            (\<forall>s vl node. getVlanIf s (m_vlanID c) = Some vl \<and>
                 getNodeIf (neighborTable vl) a = Some node \<longrightarrow>
               (\<exists>s' vl'. applyUpdate pp att c' (FlushEntryFn a) s = Inr (Some s') \<and>
                  getVlanIf s' (m_vlanID c) = Some vl' \<and>
                  getNodeIf (neighborTable vl') a = None))"
    using run gone others queue tree app by blast
qed

theorem processEntry_step_witness:
  "(getCacheEntry ex_empty_cache 5 = None \<and>
    processEntry ex_expire 0 ex_att 5 ex_empty_cache = Inr ex_empty_cache) \<and>
   (getCacheEntry ex_cache_one 5 = Some (mkEntry ex_fields REACHABLE) \<and>
    getState (ex_age (mkEntry ex_fields REACHABLE)) \<noteq> EXPIRED \<and>
    processEntry ex_age 0 ex_att 5 ex_cache_one =
      Inr (ex_cache_one\<lparr>m_entries :=
             AList.update 5 (ex_age (mkEntry ex_fields REACHABLE)) (m_entries ex_cache_one)\<rparr>)) \<and>
   (getState (ex_expire (mkEntry ex_fields REACHABLE)) = EXPIRED \<and>
    getVlanIf ex_state_one (m_vlanID ex_cache_one) = Some ex_vlan_one \<and>
    getNodeIf (neighborTable ex_vlan_one) 5 = Some ex_fields \<and>
    (\<exists>c' s' vl'. processEntry ex_expire 0 ex_att 5 ex_cache_one = Inr c' \<and>
       getCacheEntry c' 5 = None \<and>
       pendingUpdates (m_sw c') = pendingUpdates (m_sw ex_cache_one) @ [FlushEntryFn 5] \<and>
       applyUpdate 0 ex_att c' (FlushEntryFn 5) ex_state_one = Inr (Some s') \<and>
       getVlanIf s' (m_vlanID ex_cache_one) = Some vl' \<and>
       getNodeIf (neighborTable vl') 5 = None))"
proof -
  have absent: "getCacheEntry ex_empty_cache 5 = None"
    by (simp add: getCacheEntry_def ex_empty_cache_def)
  have present: "getCacheEntry ex_cache_one 5 = Some (mkEntry ex_fields REACHABLE)"
    by (simp add: getCacheEntry_def ex_cache_one_def)
  have aged: "getState (ex_age (mkEntry ex_fields REACHABLE)) \<noteq> EXPIRED"
    by (simp add: getState_def ex_age_def Entry_updateState_def)
  have expired: "getState (ex_expire (mkEntry ex_fields REACHABLE)) = EXPIRED"
    by (simp add: getState_def ex_expire_def Entry_updateState_def)
  have vl: "getVlanIf ex_state_one (m_vlanID ex_cache_one) = Some ex_vlan_one"
    by (simp add: getVlanIf_def ex_state_one_def ex_cache_one_def)
  have node: "getNodeIf (neighborTable ex_vlan_one) 5 = Some ex_fields"
    by (simp add: getNodeIf_def ex_vlan_one_def)
  have a: "processEntry ex_expire 0 ex_att 5 ex_empty_cache = Inr ex_empty_cache"
    using processEntry_step [of ex_empty_cache 5 ex_expire 0 ex_att] absent by blast
  have b: "processEntry ex_age 0 ex_att 5 ex_cache_one =
      Inr (ex_cache_one\<lparr>m_entries :=
             AList.update 5 (ex_age (mkEntry ex_fields REACHABLE)) (m_entries ex_cache_one)\<rparr>)"
    using processEntry_step [of ex_cache_one 5 ex_age 0 ex_att] present aged by blast
  obtain c' where c': "processEntry ex_expire 0 ex_att 5 ex_cache_one = Inr c'"
      "getCacheEntry c' 5 = None"
      "pendingUpdates (m_sw c') = pendingUpdates (m_sw ex_cache_one) @ [FlushEntryFn 5]"
      "\<forall>s vl node. getVlanIf s (m_vlanID ex_cache_one) = Some vl \<and>
                 getNodeIf (neighborTable vl) 5 = Some node \<longrightarrow>
               (\<exists>s' vl'. applyUpdate 0 ex_att c' (FlushEntryFn 5) s = Inr (Some s') \<and>
                  getVlanIf s' (m_vlanID ex_cache_one) = Some vl' \<and>
                  getNodeIf (neighborTable vl') 5 = None)"
    using processEntry_step [of ex_cache_one 5 ex_expire 0 ex_att] present expired by blast
  from c'(4) vl node obtain s' vl' where
    "applyUpdate 0 ex_att c' (FlushEntryFn 5) ex_state_one = Inr (Some s')"
    "getVlanIf s' (m_vlanID ex_cache_one) = Some vl'"
    "getNodeIf (neighborTable vl') 5 = None"
    by blast
  with c'(1-3) have "\<exists>c' s' vl'. processEntry ex_expire 0 ex_att 5 ex_cache_one = Inr c' \<and>
       getCacheEntry c' 5 = None \<and>
       pendingUpdates (m_sw c') = pendingUpdates (m_sw ex_cache_one) @ [FlushEntryFn 5] \<and>
       applyUpdate 0 ex_att c' (FlushEntryFn 5) ex_state_one = Inr (Some s') \<and>
       getVlanIf s' (m_vlanID ex_cache_one) = Some vl' \<and>
       getNodeIf (neighborTable vl') 5 = None"
    by blast
  with absent present aged expired vl node a b show ?thesis by blast
qed

subsection \<open>The checks of programEntry and programPendingEntry\<close>

text \<open>
  setEntryInternal on an address that has an entry: the entry takes the requested MAC,
  port and pending flag and the requested state, and keeps its address and interface.
\<close>

lemma setEntryInternal_present:
  "getCacheEntry c (ip f) = Some e0 \<Longrightarrow>
   setEntryInternal f st add c =
     (Some (Entry_updateState (if \<not> fieldsMatch e0 f then updateFields e0 f else e0) st),
      c\<lparr>m_entries := AList.update (ip f)
           (Entry_updateState (if \<not> fieldsMatch e0 f then updateFields e0 f else e0) st)
           (m_entries c)\<rparr>)"
  by (simp add: setEntryInternal_def Let_def)

lemma updated_entry:
  "mac (m_fields (Entry_updateState (if \<not> fieldsMatch e0 f then updateFields e0 f else e0) st)) = mac f"
  "port (m_fields (Entry_updateState (if \<not> fieldsMatch e0 f then updateFields e0 f else e0) st)) = port f"
  "pending (m_fields (Entry_updateState (if \<not> fieldsMatch e0 f then updateFields e0 f else e0) st)) = pending f"
  "ip (m_fields (Entry_updateState (if \<not> fieldsMatch e0 f then updateFields e0 f else e0) st)) = ip (m_fields e0)"
  "interfaceID (m_fields (Entry_updateState (if \<not> fieldsMatch e0 f then updateFields e0 f else e0) st)) = interfaceID (m_fields e0)"
  "m_state (Entry_updateState (if \<not> fieldsMatch e0 f then updateFields e0 f else e0) st) = st"
  by (simp_all add: Entry_updateState_def fieldsMatch_def updateFields_def)

text \<open>
  Whatever the cache holds, the entry that setEntryInternal returns has the pending flag
  of the fields it was given, so the \<open>CHECK\<close> of the program call that follows holds.
\<close>

lemma setEntryInternal_pending:
  "setEntryInternal f st add c = (Some e, c') \<Longrightarrow> isPending e = pending f"
  by (cases "getCacheEntry c (ip f)")
     (auto simp: setEntryInternal_def Let_def isPending_def mkEntry_def Entry_updateState_def
        fieldsMatch_def updateFields_def split: if_splits)

lemma setEntryInternal_add_Some:
  "\<exists>e c'. setEntryInternal f st True c = (Some e, c')"
  by (cases "getCacheEntry c (ip f)") (simp_all add: setEntryInternal_def Let_def)

lemma setEntry_returns: "\<exists>c'. setEntry a m p st c = Inr c'"
proof -
  obtain e c1 where i: "setEntryInternal (mkEntryFields a m p (m_intfID c)) st True c = (Some e, c1)"
    using setEntryInternal_add_Some by blast
  have "isPending e = pending (mkEntryFields a m p (m_intfID c))"
    by (rule setEntryInternal_pending [OF i])
  then have "\<not> isPending e" by (simp add: mkEntryFields_def)
  then show ?thesis by (simp add: setEntry_def i programEntry_def)
qed

lemma setExistingEntry_returns: "\<exists>c'. setExistingEntry a m p st c = Inr c'"
proof (cases "setEntryInternal (mkEntryFields a m p (m_intfID c)) st False c")
  case (Pair r c1)
  show ?thesis
  proof (cases r)
    case None
    then show ?thesis using Pair by (simp add: setExistingEntry_def)
  next
    case (Some e)
    have i: "setEntryInternal (mkEntryFields a m p (m_intfID c)) st False c = (Some e, c1)"
      using Pair Some by simp
    have "isPending e = pending (mkEntryFields a m p (m_intfID c))"
      by (rule setEntryInternal_pending [OF i])
    then have "\<not> isPending e" by (simp add: mkEntryFields_def)
    then show ?thesis using Pair Some by (simp add: setExistingEntry_def programEntry_def)
  qed
qed

lemma setPendingEntry_returns: "\<exists>c'. setPendingEntry pp a force c = Inr c'"
proof (cases "\<not> force \<and> getCacheEntry c a \<noteq> None")
  case True
  then show ?thesis by (simp add: setPendingEntry_def)
next
  case False
  obtain e c1 where i: "setEntryInternal (mkPendingFields pp a (m_intfID c)) INCOMPLETE True c = (Some e, c1)"
    using setEntryInternal_add_Some by blast
  have "isPending e = pending (mkPendingFields pp a (m_intfID c))"
    by (rule setEntryInternal_pending [OF i])
  then have "isPending e" by (simp add: mkPendingFields_def)
  then show ?thesis using False by (auto simp: setPendingEntry_def i programPendingEntry_def)
qed

lemma portDown_loop_returns: "\<exists>c'. portDown_loop pp p items c = Inr c'"
proof (induction items arbitrary: c)
  case Nil
  show ?case by simp
next
  case (Cons item items)
  show ?case
  proof (cases "getPortID (snd item) \<noteq> p")
    case True
    then show ?thesis using Cons.IH [of c] by simp
  next
    case False
    obtain c1 where "setPendingEntry pp (getIP (snd item)) True c = Inr c1"
      using setPendingEntry_returns [of pp "getIP (snd item)" True c] by (elim exE)
    then show ?thesis using False Cons.IH [of c1] by simp
  qed
qed

lemma call_returns: "\<exists>c'. call pp x c = Inr c'"
  by (cases x)
     (simp_all add: setEntry_returns setExistingEntry_returns setPendingEntry_returns
        portDown_def portDown_loop_returns)

text \<open>
  C9: every sequence of calls of setEntry, setExistingEntry, setPendingEntry, repopulate
  and portDown, from any cache, returns: neither \<open>CHECK(!entry->isPending())\<close> in
  programEntry nor \<open>CHECK(entry->isPending())\<close> in programPendingEntry fires (nor any
  other error), because the entry setEntryInternal returns has the pending flag of the
  fields supplied.
\<close>

theorem checks_never_fire:
  "(\<exists>c'. calls pp xs c = Inr c') \<and>
   (\<forall>f st add e c'. setEntryInternal f st add c = (Some e, c') \<longrightarrow> isPending e = pending f)"
proof
  show "\<exists>c'. calls pp xs c = Inr c'"
  proof (induction xs arbitrary: c)
    case Nil
    show ?case by simp
  next
    case (Cons x xs)
    obtain c1 where "call pp x c = Inr c1" using call_returns by blast
    then show ?case using Cons.IH [of c1] by simp
  qed
  show "\<forall>f st add e c'. setEntryInternal f st add c = (Some e, c') \<longrightarrow> isPending e = pending f"
    by (intro allI impI) (rule setEntryInternal_pending)
qed

theorem checks_never_fire_witness:
  "(\<exists>c'. calls 0 [SetEntry 5 11 2 REACHABLE, PortDown 2, SetExistingEntry 5 11 2 STALE,
               SetPendingEntry 5 True, Repopulate [ex_fields], SetPendingEntry 6 False]
            ex_empty_cache = Inr c') \<and>
   (\<exists>e c'. setEntryInternal (mkPendingFields 0 5 7) INCOMPLETE True ex_cache_one = (Some e, c') \<and>
      isPending e = pending (mkPendingFields 0 (5::nat) 7))"
proof -
  obtain e c' where
    i: "setEntryInternal (mkPendingFields 0 5 7) INCOMPLETE True ex_cache_one = (Some e, c')"
    using setEntryInternal_add_Some [of "mkPendingFields 0 5 7" INCOMPLETE ex_cache_one]
    by (elim exE)
  have "isPending e = pending (mkPendingFields 0 (5::nat) 7)"
    using checks_never_fire [of 0 "[]" ex_cache_one] i by blast
  with i have second: "\<exists>e c'.
      setEntryInternal (mkPendingFields 0 5 7) INCOMPLETE True ex_cache_one = (Some e, c') \<and>
      isPending e = pending (mkPendingFields 0 (5::nat) 7)"
    by blast
  show ?thesis
    using checks_never_fire [of 0 "[SetEntry 5 11 2 REACHABLE, PortDown 2,
        SetExistingEntry 5 11 2 STALE, SetPendingEntry 5 True, Repopulate [ex_fields],
        SetPendingEntry 6 False]" ex_empty_cache] second
    by blast
qed

subsection \<open>setEntry twice\<close>

text \<open>
  The programEntry transform for resolved fields, applied to the snapshot it has itself
  produced, is a no-op; and on a snapshot that passes the VLAN and interface check it is
  a no-op exactly when the table has a node that matches.
\<close>

lemma programEntry_updateFn_twice:
  assumes "\<not> pending f" and "programEntry_updateFn att f v s = Inr (Some s')"
  shows "programEntry_updateFn att f v s' = Inr None"
proof (cases "getVlanIf s v")
  case None
  then show ?thesis using assms(2) by (simp add: programEntry_updateFn_vlan_deleted)
next
  case (Some vl)
  have s': "s' = modifyTable s v vl ((neighborTable vl)(ip f \<mapsto> f))"
    using assms(2) Some
    by (auto simp: programEntry_updateFn_def Let_def NTable_addEntry_def NTable_updateEntry_def
        split: if_splits option.splits)
  have vl': "getVlanIf s' v = Some (vl\<lparr>neighborTable := (neighborTable vl)(ip f \<mapsto> f)\<rparr>)"
    unfolding s' by (rule getVlanIf_modifyTable)
  show ?thesis
    using assms(1) vl'
    by (simp add: programEntry_updateFn_def checkVlanAndIntf_def Let_def getNodeIf_def)
qed

lemma programEntry_updateFn_noop_iff:
  assumes "getVlanIf s v = Some vl" and "att (ip f) (interfaceID f) s"
  shows "programEntry_updateFn att f v s = Inr None \<longleftrightarrow>
     (\<exists>node. getNodeIf (neighborTable vl) (ip f) = Some node \<and> mac node = mac f \<and>
        port node = port f \<and> interfaceID node = interfaceID f \<and> \<not> pending node)"
  using assms
  by (cases "getNodeIf (neighborTable vl) (ip f)")
     (simp_all add: programEntry_updateFn_def checkVlanAndIntf_def Let_def)

text \<open>
  The same transform on any snapshot: it is also a no-op when the VLAN is gone or the
  address is no longer attached, whatever the table holds.
\<close>

lemma programEntry_updateFn_not_attached:
  "\<not> att (ip f) (interfaceID f) s \<Longrightarrow> programEntry_updateFn att f v s = Inr None"
  by (simp add: programEntry_updateFn_def checkVlanAndIntf_def split: option.splits)

lemma programEntry_updateFn_noop_cases:
  "programEntry_updateFn att f v s = Inr None \<longleftrightarrow>
     (getVlanIf s v = None \<or> \<not> att (ip f) (interfaceID f) s \<or>
      (\<exists>node. nodeOf s v (ip f) = Some node \<and> mac node = mac f \<and> port node = port f \<and>
         interfaceID node = interfaceID f \<and> \<not> pending node))"
proof (cases "getVlanIf s v")
  case None
  then show ?thesis by (simp add: programEntry_updateFn_vlan_deleted)
next
  case (Some vl)
  show ?thesis
  proof (cases "att (ip f) (interfaceID f) s")
    case False
    then show ?thesis by (simp add: programEntry_updateFn_not_attached)
  next
    case True
    have n: "nodeOf s v (ip f) = getNodeIf (neighborTable vl) (ip f)"
      using Some by (simp add: nodeOf_def)
    show ?thesis
      using programEntry_updateFn_noop_iff [where att = att, OF Some True] Some True
      by (simp add: n)
  qed
qed

text \<open>
  The no-op signal does not need a matching node: on a snapshot without VLAN 3 the
  transform is a no-op though there is no node at all, and with the address not attached
  it is a no-op though the node for the address has another MAC and port.
\<close>

theorem programEntry_noop_counterexample:
  "programEntry_updateFn ex_att ex_fields 3 ex_no_vlan = Inr None \<and>
   nodeOf ex_no_vlan 3 (ip ex_fields) = None \<and>
   programEntry_updateFn ex_no_att ex_moved_fields 3 ex_state_one = Inr None \<and>
   nodeOf ex_state_one 3 (ip ex_moved_fields) = Some ex_fields \<and>
   mac ex_fields \<noteq> mac ex_moved_fields \<and> port ex_fields \<noteq> port ex_moved_fields"
proof -
  have nv: "getVlanIf ex_no_vlan 3 = None" by (simp add: getVlanIf_def ex_no_vlan_def)
  have a: "programEntry_updateFn ex_att ex_fields 3 ex_no_vlan = Inr None"
    by (rule programEntry_updateFn_vlan_deleted [OF nv])
  have b: "nodeOf ex_no_vlan 3 (ip ex_fields) = None" by (simp add: nodeOf_def nv)
  have c: "programEntry_updateFn ex_no_att ex_moved_fields 3 ex_state_one = Inr None"
    by (rule programEntry_updateFn_not_attached) (simp add: ex_no_att_def)
  have d: "nodeOf ex_state_one 3 (ip ex_moved_fields) = Some ex_fields"
    by (simp add: nodeOf_def getVlanIf_def getNodeIf_def ex_state_one_def ex_vlan_one_def
        ex_moved_fields_def mkEntryFields_def)
  have e: "mac ex_fields \<noteq> mac ex_moved_fields" "port ex_fields \<noteq> port ex_moved_fields"
    by (simp_all add: ex_fields_def ex_moved_fields_def mkEntryFields_def)
  show ?thesis by (intro conjI a b c d e)
qed

text \<open>
  Two calls of setEntry with the same arguments: the second finds the entry the first
  left, changes nothing in it and submits the same transform again.
\<close>

lemma setEntryInternal_add_result:
  "\<exists>e. setEntryInternal f st True c =
          (Some e, c\<lparr>m_entries := AList.update (ip f) e (m_entries c)\<rparr>) \<and>
        fieldsMatch e f \<and> m_state e = st \<and>
        (getCacheEntry c (ip f) = None \<longrightarrow> e = mkEntry f st)"
proof (cases "getCacheEntry c (ip f)")
  case None
  then show ?thesis
    by (simp add: setEntryInternal_absent_add setCacheEntry_def getIP_def mkEntry_def
        fieldsMatch_def)
next
  case (Some e0)
  let ?e = "Entry_updateState (if \<not> fieldsMatch e0 f then updateFields e0 f else e0) st"
  have "fieldsMatch ?e f" by (simp add: fieldsMatch_def [of ?e] updated_entry)
  moreover have "m_state ?e = st" by (rule updated_entry)
  moreover have "setEntryInternal f st True c =
      (Some ?e, c\<lparr>m_entries := AList.update (ip f) ?e (m_entries c)\<rparr>)"
    by (rule setEntryInternal_present [OF Some])
  ultimately show ?thesis using Some by (intro exI [of _ ?e]) simp
qed

lemma setEntryInternal_again:
  assumes "getCacheEntry c (ip f) = Some e" and "fieldsMatch e f" and "m_state e = st"
  shows "setEntryInternal f st add c = (Some e, c\<lparr>m_entries := AList.update (ip f) e (m_entries c)\<rparr>)"
proof -
  have "Entry_updateState e st = e" using assms(3) by (simp add: Entry_updateState_def)
  then show ?thesis
    using setEntryInternal_present [OF assms(1), of st add] assms(2) by simp
qed

lemma setEntry_twice:
  "\<exists>c1 c2 e. setEntry a m p st c = Inr c1 \<and> setEntry a m p st c1 = Inr c2 \<and>
     getCacheEntry c1 a = Some e \<and> getCacheEntry c2 a = Some e \<and>
     mac (m_fields e) = Some m \<and> port (m_fields e) = p \<and> \<not> pending (m_fields e) \<and>
     m_state e = st \<and>
     (getCacheEntry c a = None \<longrightarrow> m_fields e = mkEntryFields a m p (m_intfID c)) \<and>
     pendingUpdates (m_sw c2) =
       pendingUpdates (m_sw c) @ [ProgramEntryFn (m_fields e) (m_vlanID c),
                                  ProgramEntryFn (m_fields e) (m_vlanID c)]"
proof -
  let ?f = "mkEntryFields a m p (m_intfID c)"
  have ipf: "ip ?f = a" by (simp add: mkEntryFields_def)
  obtain e where
    i: "setEntryInternal ?f st True c = (Some e, c\<lparr>m_entries := AList.update a e (m_entries c)\<rparr>)"
    and fm: "fieldsMatch e ?f" and ms: "m_state e = st"
    and fresh: "getCacheEntry c a = None \<longrightarrow> e = mkEntry ?f st"
    using setEntryInternal_add_result [of ?f st c] unfolding ipf by (elim exE conjE)
  let ?cA = "c\<lparr>m_entries := AList.update a e (m_entries c)\<rparr>"
  let ?u = "ProgramEntryFn (m_fields e) (m_vlanID c)"
  let ?c1 = "?cA\<lparr>m_sw := SwSwitch_updateState ?u (m_sw c)\<rparr>"
  let ?c2 = "?cA\<lparr>m_sw := SwSwitch_updateState ?u (SwSwitch_updateState ?u (m_sw c))\<rparr>"
  have flds: "mac (m_fields e) = Some m" "port (m_fields e) = p" "\<not> pending (m_fields e)"
    using fm by (simp_all add: fieldsMatch_def mkEntryFields_def)
  have np: "\<not> isPending e" using flds(3) by (simp add: isPending_def)
  have r1: "setEntry a m p st c = Inr ?c1"
    by (simp add: setEntry_def i programEntry_def np getFields_def)
  have l1: "getCacheEntry ?c1 a = Some e"
    by (simp add: getCacheEntry_def update_conv')
  have l1': "getCacheEntry ?c1 (ip ?f) = Some e" using l1 by (simp add: ipf)
  have i2: "setEntryInternal ?f st True ?c1 =
      (Some e, ?c1\<lparr>m_entries := AList.update (ip ?f) e (m_entries ?c1)\<rparr>)"
    by (rule setEntryInternal_again [OF l1' fm ms])
  have same: "?c1\<lparr>m_entries := AList.update (ip ?f) e (m_entries ?c1)\<rparr> = ?c1"
    by (simp add: ipf)
  have r2: "setEntry a m p st ?c1 = Inr ?c2"
    using i2 unfolding same by (simp add: setEntry_def programEntry_def np getFields_def)
  have l2: "getCacheEntry ?c2 a = Some e"
    by (simp add: getCacheEntry_def update_conv')
  have q: "pendingUpdates (m_sw ?c2) = pendingUpdates (m_sw c) @ [?u, ?u]"
    by (simp add: SwSwitch_updateState_def)
  have fr: "getCacheEntry c a = None \<longrightarrow> m_fields e = ?f"
    using fresh by (simp add: mkEntry_def)
  show ?thesis
    by (intro exI [of _ ?c1] exI [of _ ?c2] exI [of _ e] conjI r1 r2 l1 l2 flds ms fr q)
qed

text \<open>
  C3, as amended: setEntry called twice with the same MAC, port and state returns both
  times, leaves one entry with these values, and submits the same transform twice;
  whenever that transform has produced a new snapshot, applied to that snapshot it returns
  the no-op signal, so the two calls make one transition of the tree. And on every
  snapshot the programEntry transform returns the no-op signal exactly when the owning
  VLAN is missing, or the address is not attached on the interface, or the table has a
  node for the address whose MAC, port and interface equal the requested ones and which
  is not pending.
\<close>

theorem setEntry_twice_one_transition:
  "(\<exists>c1 c2 e. setEntry a m p st c = Inr c1 \<and> setEntry a m p st c1 = Inr c2 \<and>
            getCacheEntry c2 a = Some e \<and>
            mac (m_fields e) = Some m \<and> port (m_fields e) = p \<and> m_state e = st \<and>
            (getCacheEntry c a = None \<longrightarrow> m_fields e = mkEntryFields a m p (m_intfID c)) \<and>
            pendingUpdates (m_sw c2) =
              pendingUpdates (m_sw c) @ [ProgramEntryFn (m_fields e) (m_vlanID c),
                                         ProgramEntryFn (m_fields e) (m_vlanID c)] \<and>
            (\<forall>ca cb s0 s1.
               applyUpdate pp att ca (ProgramEntryFn (m_fields e) (m_vlanID c)) s0 = Inr (Some s1)
               \<longrightarrow> applyUpdate pp att cb (ProgramEntryFn (m_fields e) (m_vlanID c)) s1 = Inr None)) \<and>
   (programEntry_updateFn att f v s = Inr None \<longleftrightarrow>
      (getVlanIf s v = None \<or> \<not> att (ip f) (interfaceID f) s \<or>
       (\<exists>node. nodeOf s v (ip f) = Some node \<and> mac node = mac f \<and> port node = port f \<and>
          interfaceID node = interfaceID f \<and> \<not> pending node)))"
proof
  obtain c1 c2 e where
    r: "setEntry a m p st c = Inr c1" "setEntry a m p st c1 = Inr c2"
       "getCacheEntry c2 a = Some e" "mac (m_fields e) = Some m" "port (m_fields e) = p"
       "m_state e = st"
       "getCacheEntry c a = None \<longrightarrow> m_fields e = mkEntryFields a m p (m_intfID c)"
       "pendingUpdates (m_sw c2) =
          pendingUpdates (m_sw c) @ [ProgramEntryFn (m_fields e) (m_vlanID c),
                                     ProgramEntryFn (m_fields e) (m_vlanID c)]"
    and np: "\<not> pending (m_fields e)"
    using setEntry_twice [of a m p st c] by (elim exE conjE)
  have idem: "\<forall>ca cb s0 s1.
       applyUpdate pp att ca (ProgramEntryFn (m_fields e) (m_vlanID c)) s0 = Inr (Some s1)
       \<longrightarrow> applyUpdate pp att cb (ProgramEntryFn (m_fields e) (m_vlanID c)) s1 = Inr None"
    using programEntry_updateFn_twice [OF np] by (simp add: applyUpdate_def)
  show "\<exists>c1 c2 e. setEntry a m p st c = Inr c1 \<and> setEntry a m p st c1 = Inr c2 \<and>
            getCacheEntry c2 a = Some e \<and>
            mac (m_fields e) = Some m \<and> port (m_fields e) = p \<and> m_state e = st \<and>
            (getCacheEntry c a = None \<longrightarrow> m_fields e = mkEntryFields a m p (m_intfID c)) \<and>
            pendingUpdates (m_sw c2) =
              pendingUpdates (m_sw c) @ [ProgramEntryFn (m_fields e) (m_vlanID c),
                                         ProgramEntryFn (m_fields e) (m_vlanID c)] \<and>
            (\<forall>ca cb s0 s1.
               applyUpdate pp att ca (ProgramEntryFn (m_fields e) (m_vlanID c)) s0 = Inr (Some s1)
               \<longrightarrow> applyUpdate pp att cb (ProgramEntryFn (m_fields e) (m_vlanID c)) s1 = Inr None)"
    by (intro exI [of _ c1] exI [of _ c2] exI [of _ e] conjI r idem)
  show "programEntry_updateFn att f v s = Inr None \<longleftrightarrow>
      (getVlanIf s v = None \<or> \<not> att (ip f) (interfaceID f) s \<or>
       (\<exists>node. nodeOf s v (ip f) = Some node \<and> mac node = mac f \<and> port node = port f \<and>
          interfaceID node = interfaceID f \<and> \<not> pending node))"
    by (rule programEntry_updateFn_noop_cases)
qed

theorem setEntry_twice_one_transition_witness:
  "getVlanIf ex_state_one 3 = Some ex_vlan_one \<and>
   ex_att (ip ex_fields) (interfaceID ex_fields) ex_state_one \<and>
   getCacheEntry ex_empty_cache 5 = None \<and>
   (\<exists>c1 c2 s1. setEntry 5 11 2 REACHABLE ex_empty_cache = Inr c1 \<and>
      setEntry 5 11 2 REACHABLE c1 = Inr c2 \<and>
      pendingUpdates (m_sw c2) = [ProgramEntryFn ex_fields 3, ProgramEntryFn ex_fields 3] \<and>
      applyUpdate 0 ex_att c1 (ProgramEntryFn ex_fields 3) ex_state = Inr (Some s1) \<and>
      applyUpdate 0 ex_att c2 (ProgramEntryFn ex_fields 3) s1 = Inr None) \<and>
   programEntry_updateFn ex_att ex_fields 3 ex_state_one = Inr None \<and>
   (\<exists>node. nodeOf ex_state_one 3 (ip ex_fields) = Some node \<and>
      mac node = mac ex_fields \<and> port node = port ex_fields \<and>
      interfaceID node = interfaceID ex_fields \<and> \<not> pending node)"
proof -
  have h1: "getVlanIf ex_state_one 3 = Some ex_vlan_one"
    by (simp add: getVlanIf_def ex_state_one_def)
  have h2: "ex_att (ip ex_fields) (interfaceID ex_fields) ex_state_one"
    by (simp add: ex_att_def)
  have absent: "getCacheEntry ex_empty_cache 5 = None"
    by (simp add: getCacheEntry_def ex_empty_cache_def)
  have node: "\<exists>node. nodeOf ex_state_one 3 (ip ex_fields) = Some node \<and>
      mac node = mac ex_fields \<and> port node = port ex_fields \<and>
      interfaceID node = interfaceID ex_fields \<and> \<not> pending node"
    by (simp add: nodeOf_def h1 getNodeIf_def ex_vlan_one_def ex_fields_def mkEntryFields_def)
  note inst = setEntry_twice_one_transition [where att = ex_att and s = ex_state_one and v = 3
      and f = ex_fields and a = 5 and m = 11 and p = 2 and st = REACHABLE
      and c = ex_empty_cache and pp = 0]
  have noop: "programEntry_updateFn ex_att ex_fields 3 ex_state_one = Inr None"
    by (rule iffD2 [OF conjunct2 [OF inst]]) (intro disjI2, rule node)
  have part: "\<exists>c1 c2 e. setEntry 5 11 2 REACHABLE ex_empty_cache = Inr c1 \<and>
      setEntry 5 11 2 REACHABLE c1 = Inr c2 \<and>
      getCacheEntry c2 5 = Some e \<and>
      mac (m_fields e) = Some 11 \<and> port (m_fields e) = 2 \<and> m_state e = REACHABLE \<and>
      (getCacheEntry ex_empty_cache 5 = None \<longrightarrow>
         m_fields e = mkEntryFields 5 11 2 (m_intfID ex_empty_cache)) \<and>
      pendingUpdates (m_sw c2) =
        pendingUpdates (m_sw ex_empty_cache) @
          [ProgramEntryFn (m_fields e) (m_vlanID ex_empty_cache),
           ProgramEntryFn (m_fields e) (m_vlanID ex_empty_cache)] \<and>
      (\<forall>ca cb s0 s1.
        applyUpdate 0 ex_att ca (ProgramEntryFn (m_fields e) (m_vlanID ex_empty_cache)) s0
          = Inr (Some s1) \<longrightarrow>
        applyUpdate 0 ex_att cb (ProgramEntryFn (m_fields e) (m_vlanID ex_empty_cache)) s1
          = Inr None)"
    using inst by (rule conjunct1)
  then obtain c1 c2 e where
    r: "setEntry 5 11 2 REACHABLE ex_empty_cache = Inr c1" "setEntry 5 11 2 REACHABLE c1 = Inr c2"
    and "getCacheEntry c2 5 = Some e"
    and "mac (m_fields e) = Some 11" and "port (m_fields e) = 2" and "m_state e = REACHABLE"
    and fresh: "getCacheEntry ex_empty_cache 5 = None \<longrightarrow>
        m_fields e = mkEntryFields 5 11 2 (m_intfID ex_empty_cache)"
    and q: "pendingUpdates (m_sw c2) =
        pendingUpdates (m_sw ex_empty_cache) @
          [ProgramEntryFn (m_fields e) (m_vlanID ex_empty_cache),
           ProgramEntryFn (m_fields e) (m_vlanID ex_empty_cache)]"
    and idem: "\<forall>ca cb s0 s1.
        applyUpdate 0 ex_att ca (ProgramEntryFn (m_fields e) (m_vlanID ex_empty_cache)) s0
          = Inr (Some s1) \<longrightarrow>
        applyUpdate 0 ex_att cb (ProgramEntryFn (m_fields e) (m_vlanID ex_empty_cache)) s1
          = Inr None"
    by (elim exE conjE)
  have fe: "m_fields e = ex_fields"
    using fresh absent by (simp add: ex_fields_def ex_empty_cache_def)
  have vid: "m_vlanID ex_empty_cache = 3" by (simp add: ex_empty_cache_def)
  have q': "pendingUpdates (m_sw c2) = [ProgramEntryFn ex_fields 3, ProgramEntryFn ex_fields 3]"
    using q by (simp add: fe vid ex_empty_cache_def ex_switch_def)
  have first: "applyUpdate 0 ex_att c1 (ProgramEntryFn ex_fields 3) ex_state =
      Inr (Some (modifyTable ex_state 3 ex_vlan (NTable_addEntry (neighborTable ex_vlan) ex_fields)))"
    by (simp add: applyUpdate_def programEntry_updateFn_add getVlanIf_def ex_state_def
        ex_att_def getNodeIf_def ex_vlan_def)
  have second: "applyUpdate 0 ex_att c2 (ProgramEntryFn ex_fields 3)
      (modifyTable ex_state 3 ex_vlan (NTable_addEntry (neighborTable ex_vlan) ex_fields)) = Inr None"
    using idem first unfolding fe vid by blast
  have "\<exists>c1 c2 s1. setEntry 5 11 2 REACHABLE ex_empty_cache = Inr c1 \<and>
      setEntry 5 11 2 REACHABLE c1 = Inr c2 \<and>
      pendingUpdates (m_sw c2) = [ProgramEntryFn ex_fields 3, ProgramEntryFn ex_fields 3] \<and>
      applyUpdate 0 ex_att c1 (ProgramEntryFn ex_fields 3) ex_state = Inr (Some s1) \<and>
      applyUpdate 0 ex_att c2 (ProgramEntryFn ex_fields 3) s1 = Inr None"
    by (rule exI [of _ c1], rule exI [of _ c2],
        rule exI [of _ "modifyTable ex_state 3 ex_vlan
          (NTable_addEntry (neighborTable ex_vlan) ex_fields)"])
       (intro conjI r q' first second)
  then show ?thesis
    using h1 h2 absent noop node by (intro conjI)
qed

subsection \<open>repopulate\<close>

text \<open>
  setEntryInternal with \<open>add\<close> changes the lookup of the address of the fields only, and
  the entry it returns depends on the cache only through that lookup; it submits nothing.
\<close>

lemma getCacheEntry_setEntryInternal:
  "getCacheEntry (snd (setEntryInternal f st True c)) a =
     (if a = ip f then fst (setEntryInternal f st True c) else getCacheEntry c a)"
  by (cases "getCacheEntry c (ip f)")
     (simp_all add: setEntryInternal_def Let_def getCacheEntry_def setCacheEntry_def update_conv'
        getIP_def mkEntry_def)

lemma setEntryInternal_entry_cong:
  "getCacheEntry c (ip f) = getCacheEntry c' (ip f) \<Longrightarrow>
   fst (setEntryInternal f st add c) = fst (setEntryInternal f st add c')"
  by (cases "getCacheEntry c' (ip f)") (simp_all add: setEntryInternal_def Let_def)

lemma setEntryInternal_sw: "m_sw (snd (setEntryInternal f st add c)) = m_sw c"
  by (cases "getCacheEntry c (ip f)")
     (simp_all add: setEntryInternal_def Let_def setCacheEntry_def)

lemma repopulate_sw: "m_sw (repopulate table c) = m_sw c"
  by (induction table arbitrary: c) (simp_all add: Let_def setEntryInternal_sw)

text \<open>
  repopulate leaves every address that is not in the table as it was, and gives every
  address of the table the entry that setEntryInternal returns for its node.
\<close>

lemma repopulate_others:
  "a \<notin> ip ` set table \<Longrightarrow> getCacheEntry (repopulate table c) a = getCacheEntry c a"
  by (induction table arbitrary: c) (simp_all add: Let_def getCacheEntry_setEntryInternal)

lemma repopulate_entry:
  assumes "distinct (map ip table)" and "f \<in> set table"
  shows "getCacheEntry (repopulate table c) (ip f) =
     fst (setEntryInternal f (if pending f then INCOMPLETE else STALE) True c)"
  using assms
proof (induction table arbitrary: c)
  case Nil
  then show ?case by simp
next
  case (Cons g rest)
  let ?c1 = "snd (setEntryInternal g (if pending g then INCOMPLETE else STALE) True c)"
  have unfold: "repopulate (g # rest) c = repopulate rest ?c1" by (simp add: Let_def)
  show ?case
  proof (cases "f = g")
    case True
    have "ip g \<notin> ip ` set rest" using Cons.prems(1) by simp
    then have "getCacheEntry (repopulate rest ?c1) (ip g) = getCacheEntry ?c1 (ip g)"
      by (rule repopulate_others)
    then show ?thesis
      unfolding unfold True by (simp add: getCacheEntry_setEntryInternal)
  next
    case False
    then have mem: "f \<in> set rest" using Cons.prems(2) by simp
    have dist: "distinct (map ip rest)" using Cons.prems(1) by simp
    have "ip f \<in> ip ` set rest" using mem by (rule imageI)
    moreover have "ip g \<notin> ip ` set rest" using Cons.prems(1) by simp
    ultimately have ne: "ip f \<noteq> ip g" by metis
    have same: "getCacheEntry ?c1 (ip f) = getCacheEntry c (ip f)"
      using ne by (simp add: getCacheEntry_setEntryInternal)
    have "getCacheEntry (repopulate rest ?c1) (ip f) =
        fst (setEntryInternal f (if pending f then INCOMPLETE else STALE) True ?c1)"
      by (rule Cons.IH [OF dist mem])
    also have "\<dots> = fst (setEntryInternal f (if pending f then INCOMPLETE else STALE) True c)"
      by (rule setEntryInternal_entry_cong [OF same])
    finally show ?thesis unfolding unfold .
  qed
qed

lemma setEntryInternal_add_entry:
  "\<exists>e. fst (setEntryInternal f st True c) = Some e \<and> m_state e = st \<and>
        mac (m_fields e) = mac f \<and> port (m_fields e) = port f \<and>
        pending (m_fields e) = pending f \<and>
        (getCacheEntry c (ip f) = None \<longrightarrow> e = mkEntry f st) \<and>
        (\<forall>e0. getCacheEntry c (ip f) = Some e0 \<longrightarrow>
           ip (m_fields e) = ip (m_fields e0) \<and>
           interfaceID (m_fields e) = interfaceID (m_fields e0))"
proof (cases "getCacheEntry c (ip f)")
  case None
  then show ?thesis by (simp add: setEntryInternal_absent_add mkEntry_def)
next
  case (Some e0)
  show ?thesis
    using Some by (simp add: setEntryInternal_present [OF Some] updated_entry)
qed

text \<open>
  C7: repopulate of a table (one node per address) replays every node through
  setEntryInternal with \<open>add\<close>: afterwards the lookup of the node's address is the
  entry that call returns on the cache as it was; its state is INCOMPLETE when the node is
  pending and STALE otherwise, never REACHABLE; its MAC, port and pending flag are the
  node's; it is a new entry with the node's fields when the address had none, and the
  updated old entry (address and interface kept) when it had one. Addresses outside the
  table keep their lookup, and no transform is submitted.
\<close>

theorem repopulate_seeds:
  assumes "distinct (map ip table)"
  shows "(\<forall>f \<in> set table.
            getCacheEntry (repopulate table c) (ip f) =
              fst (setEntryInternal f (if pending f then INCOMPLETE else STALE) True c) \<and>
            (\<exists>e. getCacheEntry (repopulate table c) (ip f) = Some e \<and>
               m_state e = (if pending f then INCOMPLETE else STALE) \<and>
               m_state e \<noteq> REACHABLE \<and>
               mac (m_fields e) = mac f \<and> port (m_fields e) = port f \<and>
               pending (m_fields e) = pending f \<and>
               (getCacheEntry c (ip f) = None \<longrightarrow>
                  e = mkEntry f (if pending f then INCOMPLETE else STALE)) \<and>
               (\<forall>e0. getCacheEntry c (ip f) = Some e0 \<longrightarrow>
                  ip (m_fields e) = ip (m_fields e0) \<and>
                  interfaceID (m_fields e) = interfaceID (m_fields e0)))) \<and>
         (\<forall>a. a \<notin> ip ` set table \<longrightarrow> getCacheEntry (repopulate table c) a = getCacheEntry c a) \<and>
         m_sw (repopulate table c) = m_sw c"
proof (intro conjI ballI allI impI)
  fix f
  assume mem: "f \<in> set table"
  show "getCacheEntry (repopulate table c) (ip f) =
      fst (setEntryInternal f (if pending f then INCOMPLETE else STALE) True c)"
    by (rule repopulate_entry [OF assms mem])
next
  fix f
  assume mem: "f \<in> set table"
  let ?st = "if pending f then INCOMPLETE else STALE"
  obtain e where e: "fst (setEntryInternal f ?st True c) = Some e" "m_state e = ?st"
      "mac (m_fields e) = mac f" "port (m_fields e) = port f" "pending (m_fields e) = pending f"
      "getCacheEntry c (ip f) = None \<longrightarrow> e = mkEntry f ?st"
      "\<forall>e0. getCacheEntry c (ip f) = Some e0 \<longrightarrow>
           ip (m_fields e) = ip (m_fields e0) \<and>
           interfaceID (m_fields e) = interfaceID (m_fields e0)"
    using setEntryInternal_add_entry [of f ?st c] by (elim exE conjE)
  have look: "getCacheEntry (repopulate table c) (ip f) = Some e"
    using repopulate_entry [OF assms mem, of c] e(1) by simp
  have nr: "m_state e \<noteq> REACHABLE" using e(2) by simp
  show "\<exists>e. getCacheEntry (repopulate table c) (ip f) = Some e \<and>
            m_state e = ?st \<and> m_state e \<noteq> REACHABLE \<and>
            mac (m_fields e) = mac f \<and> port (m_fields e) = port f \<and>
            pending (m_fields e) = pending f \<and>
            (getCacheEntry c (ip f) = None \<longrightarrow> e = mkEntry f ?st) \<and>
            (\<forall>e0. getCacheEntry c (ip f) = Some e0 \<longrightarrow>
               ip (m_fields e) = ip (m_fields e0) \<and>
               interfaceID (m_fields e) = interfaceID (m_fields e0))"
    by (rule exI [of _ e]) (intro conjI look e(2-) nr)
next
  fix a
  assume "a \<notin> ip ` set table"
  then show "getCacheEntry (repopulate table c) a = getCacheEntry c a"
    by (rule repopulate_others)
next
  show "m_sw (repopulate table c) = m_sw c" by (rule repopulate_sw)
qed

theorem repopulate_seeds_witness:
  "distinct (map ip [ex_moved_fields, ex_pending_fields]) \<and>
   getCacheEntry (repopulate [ex_moved_fields, ex_pending_fields] ex_cache_one) 5
     = Some (mkEntry ex_moved_fields STALE) \<and>
   getCacheEntry (repopulate [ex_moved_fields, ex_pending_fields] ex_cache_one) 6
     = Some (mkEntry ex_pending_fields INCOMPLETE) \<and>
   getCacheEntry (repopulate [ex_moved_fields, ex_pending_fields] ex_cache_one) 8
     = getCacheEntry ex_cache_one 8 \<and>
   m_sw (repopulate [ex_moved_fields, ex_pending_fields] ex_cache_one) = m_sw ex_cache_one"
proof -
  let ?t = "[ex_moved_fields, ex_pending_fields]"
  have d: "distinct (map ip ?t)"
    by (simp add: ex_moved_fields_def ex_pending_fields_def mkEntryFields_def mkPendingFields_def)
  note inst = repopulate_seeds [OF d, of ex_cache_one]
  note entries = conjunct1 [OF inst]
  note others = conjunct1 [OF conjunct2 [OF inst]]
  have ip5: "ip ex_moved_fields = 5" "\<not> pending ex_moved_fields"
    by (simp_all add: ex_moved_fields_def mkEntryFields_def)
  have ip6: "ip ex_pending_fields = 6" "pending ex_pending_fields"
    by (simp_all add: ex_pending_fields_def mkPendingFields_def)
  have i5: "fst (setEntryInternal ex_moved_fields STALE True ex_cache_one)
      = Some (mkEntry ex_moved_fields STALE)"
    by (simp add: setEntryInternal_def getCacheEntry_def ex_cache_one_def ex_moved_fields_def
        ex_fields_def mkEntryFields_def mkEntry_def fieldsMatch_def updateFields_def
        Entry_updateState_def Let_def)
  have i6: "fst (setEntryInternal ex_pending_fields INCOMPLETE True ex_cache_one)
      = Some (mkEntry ex_pending_fields INCOMPLETE)"
    by (simp add: setEntryInternal_def getCacheEntry_def ex_cache_one_def ex_pending_fields_def
        mkPendingFields_def Let_def)
  have m5: "ex_moved_fields \<in> set ?t" and m6: "ex_pending_fields \<in> set ?t" by simp_all
  have l5: "getCacheEntry (repopulate ?t ex_cache_one) 5 = Some (mkEntry ex_moved_fields STALE)"
    using conjunct1 [OF bspec [OF entries m5]] by (simp add: ip5 i5)
  have l6: "getCacheEntry (repopulate ?t ex_cache_one) 6 = Some (mkEntry ex_pending_fields INCOMPLETE)"
    using conjunct1 [OF bspec [OF entries m6]] by (simp add: ip6 i6)
  have n8: "(8::nat) \<notin> ip ` set ?t" by (simp add: ip5 ip6)
  have l8: "getCacheEntry (repopulate ?t ex_cache_one) 8 = getCacheEntry ex_cache_one 8"
    using spec [OF others, of 8] n8 by simp
  have sw: "m_sw (repopulate ?t ex_cache_one) = m_sw ex_cache_one"
    by (rule conjunct2 [OF conjunct2 [OF inst]])
  show ?thesis by (intro conjI d l5 l6 l8 sw)
qed

subsection \<open>portDown\<close>

text \<open>
  setPendingEntry with force on an address that has an entry: the entry becomes pending
  (no MAC, state INCOMPLETE) in place and one forced pending-add transform is submitted.
\<close>

lemma setPendingEntry_forced:
  assumes "getCacheEntry c k = Some e"
  shows "\<exists>e'. setPendingEntry pp k True c =
            Inr (c\<lparr>m_entries := AList.update k e' (m_entries c),
                   m_sw := SwSwitch_updateState
                     (ProgramPendingEntryFn (m_fields e') (m_vlanID c) True) (m_sw c)\<rparr>) \<and>
          mac (m_fields e') = None \<and> port (m_fields e') = pp \<and> pending (m_fields e') \<and>
          m_state e' = INCOMPLETE \<and> ip (m_fields e') = ip (m_fields e) \<and>
          interfaceID (m_fields e') = interfaceID (m_fields e)"
proof -
  let ?pf = "mkPendingFields pp k (m_intfID c)"
  let ?e' = "Entry_updateState (if \<not> fieldsMatch e ?pf then updateFields e ?pf else e) INCOMPLETE"
  let ?c1 = "c\<lparr>m_entries := AList.update k ?e' (m_entries c)\<rparr>"
  have ipf: "ip ?pf = k" by (simp add: mkPendingFields_def)
  have pres: "getCacheEntry c (ip ?pf) = Some e" using assms by (simp add: ipf)
  have i: "setEntryInternal ?pf INCOMPLETE True c = (Some ?e', ?c1)"
    using setEntryInternal_present [OF pres, of INCOMPLETE True] by (simp add: ipf)
  have pend: "isPending ?e'"
    unfolding isPending_def by (simp only: updated_entry) (simp add: mkPendingFields_def)
  have run: "setPendingEntry pp k True c =
      Inr (c\<lparr>m_entries := AList.update k ?e' (m_entries c),
             m_sw := SwSwitch_updateState
               (ProgramPendingEntryFn (m_fields ?e') (m_vlanID c) True) (m_sw c)\<rparr>)"
    using pend by (simp add: setPendingEntry_def i programPendingEntry_def getFields_def)
  have m: "mac (m_fields ?e') = None" by (simp only: updated_entry) (simp add: mkPendingFields_def)
  have p: "port (m_fields ?e') = pp" by (simp only: updated_entry) (simp add: mkPendingFields_def)
  have pd: "pending (m_fields ?e')" by (simp only: updated_entry) (simp add: mkPendingFields_def)
  have st: "m_state ?e' = INCOMPLETE" by (rule updated_entry)
  have ipe: "ip (m_fields ?e') = ip (m_fields e)" by (rule updated_entry)
  have ifc: "interfaceID (m_fields ?e') = interfaceID (m_fields e)" by (rule updated_entry)
  show ?thesis
    by (rule exI [of _ ?e']) (intro conjI run m p pd st ipe ifc)
qed

text \<open>
  The forced pending-add transform, on a snapshot that passes the check, leaves a pending
  node for its address; a pending-add transform changes the node of no other address.
\<close>

lemma nodeOf_modifyTable:
  "nodeOf (modifyTable s v vl t) w b = (if w = v then t b else nodeOf s w b)"
  by (simp add: nodeOf_def modifyTable_def getVlanIf_def getNodeIf_def)

lemma programPendingEntry_updateFn_forced:
  assumes "getVlanIf s v = Some vl" and "att (ip f) (interfaceID f) s"
  shows "\<exists>s'. programPendingEntry_updateFn pp att f v True s = Inr (Some s') \<and>
           nodeOf s' v (ip f) = Some (mkPendingFields pp (ip f) (interfaceID f))"
  using assms
  by (cases "getNodeIf (neighborTable vl) (ip f)")
     (simp_all add: programPendingEntry_updateFn_def checkVlanAndIntf_def Let_def
        nodeOf_modifyTable NTable_addPendingEntry_def)

lemma programPendingEntry_updateFn_frame:
  assumes "programPendingEntry_updateFn pp att f v force s = Inr (Some s')" and "b \<noteq> ip f"
  shows "nodeOf s' w b = nodeOf s w b"
proof (cases "getVlanIf s v")
  case None
  then show ?thesis using assms(1) by (simp add: programPendingEntry_updateFn_vlan_deleted)
next
  case (Some vl)
  have old: "nodeOf s v b = neighborTable vl b"
    using Some by (simp add: nodeOf_def getNodeIf_def)
  show ?thesis
    using assms Some old
    by (auto simp: programPendingEntry_updateFn_def Let_def nodeOf_modifyTable
        NTable_addPendingEntry_def NTable_removeEntry_def
        split: if_splits option.splits)
qed

lemma applyPending_frame:
  assumes "\<forall>u \<in> set us. \<exists>f v force. u = ProgramPendingEntryFn f v force \<and> ip f \<noteq> b"
  shows "\<exists>s'. applyPending pp att cx us s = Inr s' \<and> (\<forall>w. nodeOf s' w b = nodeOf s w b)"
  using assms
proof (induction us arbitrary: s)
  case Nil
  show ?case by simp
next
  case (Cons u us)
  obtain f v force where u: "u = ProgramPendingEntryFn f v force" and ne: "ip f \<noteq> b"
    using Cons.prems by auto
  have rest: "\<forall>u \<in> set us. \<exists>f v force. u = ProgramPendingEntryFn f v force \<and> ip f \<noteq> b"
    using Cons.prems by simp
  have noerr: "\<exists>r. programPendingEntry_updateFn pp att f v force s = Inr r"
    by (simp add: programPendingEntry_updateFn_def Let_def checkVlanAndIntf_def
        split: option.splits)
  then obtain r where r: "programPendingEntry_updateFn pp att f v force s = Inr r" ..
  show ?case
  proof (cases r)
    case None
    then show ?thesis using Cons.IH [OF rest, of s] u r by (simp add: applyUpdate_def)
  next
    case (Some s1)
    have fr: "\<forall>w. nodeOf s1 w b = nodeOf s w b"
      using programPendingEntry_updateFn_frame [of pp att f v force s s1 b] r Some ne by simp
    obtain s' where "applyPending pp att cx us s1 = Inr s'" "\<forall>w. nodeOf s' w b = nodeOf s1 w b"
      using Cons.IH [OF rest, of s1] by (elim exE conjE)
    then show ?thesis using u r Some fr by (simp add: applyUpdate_def)
  qed
qed

text \<open>
  The walk of portDown over items that are the entries stored under their keys.
\<close>

lemma portDown_loop_effect:
  assumes "distinct (map fst items)"
    and "\<forall>(k, e) \<in> set items. getCacheEntry c k = Some e \<and> getIP e = k"
  shows "\<exists>c' us. portDown_loop pp p items c = Inr c' \<and>
     m_vlanID c' = m_vlanID c \<and>
     appliedState (m_sw c') = appliedState (m_sw c) \<and>
     pendingUpdates (m_sw c') = pendingUpdates (m_sw c) @ us \<and>
     (\<forall>a. a \<notin> fst ` set items \<longrightarrow> getCacheEntry c' a = getCacheEntry c a) \<and>
     (\<forall>k e. (k, e) \<in> set items \<and> getPortID e \<noteq> p \<longrightarrow> getCacheEntry c' k = Some e) \<and>
     (\<forall>k e. (k, e) \<in> set items \<and> getPortID e = p \<longrightarrow>
        (\<exists>e'. getCacheEntry c' k = Some e' \<and> mac (m_fields e') = None \<and>
           pending (m_fields e') \<and> m_state e' = INCOMPLETE \<and> ip (m_fields e') = k \<and>
           ProgramPendingEntryFn (m_fields e') (m_vlanID c) True \<in> set us)) \<and>
     (\<forall>u \<in> set us. \<exists>f e. u = ProgramPendingEntryFn f (m_vlanID c) True \<and>
        (ip f, e) \<in> set items \<and> getPortID e = p)"
  using assms
proof (induction items arbitrary: c)
  case Nil
  show ?case by (rule exI [of _ c], rule exI [of _ "[]"]) simp
next
  case (Cons item rest)
  obtain k e where item: "item = (k, e)" by (cases item)
  have here: "getCacheEntry c k = Some e" and ipe: "getIP e = k"
    using Cons.prems(2) item by simp_all
  have fresh: "k \<notin> fst ` set rest" and dist: "distinct (map fst rest)"
    using Cons.prems(1) item by simp_all
  have rest_c: "\<forall>(k2, e2) \<in> set rest. getCacheEntry c k2 = Some e2 \<and> getIP e2 = k2"
    using Cons.prems(2) by simp
  show ?case
  proof (cases "getPortID e = p")
    case False
    have step: "portDown_loop pp p (item # rest) c = portDown_loop pp p rest c"
      using False item by simp
    obtain c' us where r: "portDown_loop pp p rest c = Inr c'"
      and v: "m_vlanID c' = m_vlanID c"
      and t: "appliedState (m_sw c') = appliedState (m_sw c)"
      and q: "pendingUpdates (m_sw c') = pendingUpdates (m_sw c) @ us"
      and out: "\<forall>a. a \<notin> fst ` set rest \<longrightarrow> getCacheEntry c' a = getCacheEntry c a"
      and keep: "\<forall>k e. (k, e) \<in> set rest \<and> getPortID e \<noteq> p \<longrightarrow> getCacheEntry c' k = Some e"
      and down: "\<forall>k e. (k, e) \<in> set rest \<and> getPortID e = p \<longrightarrow>
        (\<exists>e'. getCacheEntry c' k = Some e' \<and> mac (m_fields e') = None \<and>
           pending (m_fields e') \<and> m_state e' = INCOMPLETE \<and> ip (m_fields e') = k \<and>
           ProgramPendingEntryFn (m_fields e') (m_vlanID c) True \<in> set us)"
      and sub: "\<forall>u \<in> set us. \<exists>f e. u = ProgramPendingEntryFn f (m_vlanID c) True \<and>
        (ip f, e) \<in> set rest \<and> getPortID e = p"
      using Cons.IH [OF dist rest_c] by (elim exE conjE)
    have out': "\<forall>a. a \<notin> fst ` set (item # rest) \<longrightarrow> getCacheEntry c' a = getCacheEntry c a"
      using out by simp
    have keep': "\<forall>k2 e2. (k2, e2) \<in> set (item # rest) \<and> getPortID e2 \<noteq> p \<longrightarrow>
        getCacheEntry c' k2 = Some e2"
    proof (intro allI impI, elim conjE)
      fix k2 e2
      assume mem: "(k2, e2) \<in> set (item # rest)" and np: "getPortID e2 \<noteq> p"
      show "getCacheEntry c' k2 = Some e2"
      proof (cases "(k2, e2) = (k, e)")
        case True
        then show ?thesis using out fresh here by simp
      next
        case False
        then have "(k2, e2) \<in> set rest" using mem item by auto
        then show ?thesis using keep np by blast
      qed
    qed
    have down': "\<forall>k2 e2. (k2, e2) \<in> set (item # rest) \<and> getPortID e2 = p \<longrightarrow>
        (\<exists>e'. getCacheEntry c' k2 = Some e' \<and> mac (m_fields e') = None \<and>
           pending (m_fields e') \<and> m_state e' = INCOMPLETE \<and> ip (m_fields e') = k2 \<and>
           ProgramPendingEntryFn (m_fields e') (m_vlanID c) True \<in> set us)"
    proof (intro allI impI, elim conjE)
      fix k2 e2
      assume mem: "(k2, e2) \<in> set (item # rest)" and isp: "getPortID e2 = p"
      have "(k2, e2) \<noteq> (k, e)" using isp False by auto
      then have "(k2, e2) \<in> set rest" using mem item by auto
      then show "\<exists>e'. getCacheEntry c' k2 = Some e' \<and> mac (m_fields e') = None \<and>
           pending (m_fields e') \<and> m_state e' = INCOMPLETE \<and> ip (m_fields e') = k2 \<and>
           ProgramPendingEntryFn (m_fields e') (m_vlanID c) True \<in> set us"
        using down isp by blast
    qed
    have sub': "\<forall>u \<in> set us. \<exists>f e. u = ProgramPendingEntryFn f (m_vlanID c) True \<and>
        (ip f, e) \<in> set (item # rest) \<and> getPortID e = p"
      using sub by (meson list.set_intros(2))
    show ?thesis
      unfolding step
      by (rule exI [of _ c'], rule exI [of _ us]) (intro conjI r v t q out' keep' down' sub')
  next
    case True
    obtain e' where run: "setPendingEntry pp k True c =
            Inr (c\<lparr>m_entries := AList.update k e' (m_entries c),
                   m_sw := SwSwitch_updateState
                     (ProgramPendingEntryFn (m_fields e') (m_vlanID c) True) (m_sw c)\<rparr>)"
      and e': "mac (m_fields e') = None" "pending (m_fields e')" "m_state e' = INCOMPLETE"
      and ipe': "ip (m_fields e') = ip (m_fields e)"
      using setPendingEntry_forced [OF here, of pp] by (elim exE conjE)
    let ?u0 = "ProgramPendingEntryFn (m_fields e') (m_vlanID c) True"
    let ?c1 = "c\<lparr>m_entries := AList.update k e' (m_entries c),
                 m_sw := SwSwitch_updateState ?u0 (m_sw c)\<rparr>"
    have ipk: "ip (m_fields e') = k" using ipe' ipe by (simp add: getIP_def)
    have step: "portDown_loop pp p (item # rest) c = portDown_loop pp p rest ?c1"
      using True item ipe run by simp
    have look1: "\<And>a. getCacheEntry ?c1 a = (if a = k then Some e' else getCacheEntry c a)"
      by (simp add: getCacheEntry_def update_conv')
    have rest_c1: "\<forall>(k2, e2) \<in> set rest. getCacheEntry ?c1 k2 = Some e2 \<and> getIP e2 = k2"
    proof (intro ballI, clarify)
      fix k2 e2
      assume mem: "(k2, e2) \<in> set rest"
      then have "k2 \<in> fst ` set rest" by (metis fst_conv imageI)
      then have "k2 \<noteq> k" using fresh by metis
      moreover have "getCacheEntry c k2 = Some e2 \<and> getIP e2 = k2" using rest_c mem by blast
      ultimately show "getCacheEntry ?c1 k2 = Some e2 \<and> getIP e2 = k2"
        by (simp add: look1)
    qed
    have v1: "m_vlanID ?c1 = m_vlanID c" by simp
    have t1: "appliedState (m_sw ?c1) = appliedState (m_sw c)"
      by (simp add: SwSwitch_updateState_def)
    have q1: "pendingUpdates (m_sw ?c1) = pendingUpdates (m_sw c) @ [?u0]"
      by (simp add: SwSwitch_updateState_def)
    obtain c' us where r: "portDown_loop pp p rest ?c1 = Inr c'"
      and v: "m_vlanID c' = m_vlanID ?c1"
      and t: "appliedState (m_sw c') = appliedState (m_sw ?c1)"
      and q: "pendingUpdates (m_sw c') = pendingUpdates (m_sw ?c1) @ us"
      and out: "\<forall>a. a \<notin> fst ` set rest \<longrightarrow> getCacheEntry c' a = getCacheEntry ?c1 a"
      and keep: "\<forall>k e. (k, e) \<in> set rest \<and> getPortID e \<noteq> p \<longrightarrow> getCacheEntry c' k = Some e"
      and down: "\<forall>k e. (k, e) \<in> set rest \<and> getPortID e = p \<longrightarrow>
        (\<exists>e'. getCacheEntry c' k = Some e' \<and> mac (m_fields e') = None \<and>
           pending (m_fields e') \<and> m_state e' = INCOMPLETE \<and> ip (m_fields e') = k \<and>
           ProgramPendingEntryFn (m_fields e') (m_vlanID ?c1) True \<in> set us)"
      and sub: "\<forall>u \<in> set us. \<exists>f e. u = ProgramPendingEntryFn f (m_vlanID ?c1) True \<and>
        (ip f, e) \<in> set rest \<and> getPortID e = p"
      using Cons.IH [OF dist rest_c1] by (elim exE conjE)
    have v': "m_vlanID c' = m_vlanID c" using v by simp
    have t': "appliedState (m_sw c') = appliedState (m_sw c)" using t t1 by simp
    have q': "pendingUpdates (m_sw c') = pendingUpdates (m_sw c) @ (?u0 # us)"
      using q q1 by simp
    have out': "\<forall>a. a \<notin> fst ` set (item # rest) \<longrightarrow> getCacheEntry c' a = getCacheEntry c a"
      using out item by (simp add: look1)
    have keep': "\<forall>k2 e2. (k2, e2) \<in> set (item # rest) \<and> getPortID e2 \<noteq> p \<longrightarrow>
        getCacheEntry c' k2 = Some e2"
    proof (intro allI impI, elim conjE)
      fix k2 e2
      assume mem: "(k2, e2) \<in> set (item # rest)" and np: "getPortID e2 \<noteq> p"
      have "(k2, e2) \<noteq> (k, e)" using np True by auto
      then have "(k2, e2) \<in> set rest" using mem item by auto
      then show "getCacheEntry c' k2 = Some e2" using keep np by blast
    qed
    have down': "\<forall>k2 e2. (k2, e2) \<in> set (item # rest) \<and> getPortID e2 = p \<longrightarrow>
        (\<exists>e'a. getCacheEntry c' k2 = Some e'a \<and> mac (m_fields e'a) = None \<and>
           pending (m_fields e'a) \<and> m_state e'a = INCOMPLETE \<and> ip (m_fields e'a) = k2 \<and>
           ProgramPendingEntryFn (m_fields e'a) (m_vlanID c) True \<in> set (?u0 # us))"
    proof (intro allI impI, elim conjE)
      fix k2 e2
      assume mem: "(k2, e2) \<in> set (item # rest)" and isp: "getPortID e2 = p"
      show "\<exists>e'a. getCacheEntry c' k2 = Some e'a \<and> mac (m_fields e'a) = None \<and>
           pending (m_fields e'a) \<and> m_state e'a = INCOMPLETE \<and> ip (m_fields e'a) = k2 \<and>
           ProgramPendingEntryFn (m_fields e'a) (m_vlanID c) True \<in> set (?u0 # us)"
      proof (cases "(k2, e2) = (k, e)")
        case True
        have "getCacheEntry c' k = Some e'" using out fresh by (simp add: look1)
        then show ?thesis
          using True e' ipk by (intro exI [of _ e']) simp
      next
        case False
        then have "(k2, e2) \<in> set rest" using mem item by auto
        then obtain e2' where "getCacheEntry c' k2 = Some e2'" "mac (m_fields e2') = None"
          "pending (m_fields e2')" "m_state e2' = INCOMPLETE" "ip (m_fields e2') = k2"
          "ProgramPendingEntryFn (m_fields e2') (m_vlanID ?c1) True \<in> set us"
          using down isp by blast
        then show ?thesis by (intro exI [of _ e2']) simp
      qed
    qed
    have sub': "\<forall>u \<in> set (?u0 # us). \<exists>f e. u = ProgramPendingEntryFn f (m_vlanID c) True \<and>
        (ip f, e) \<in> set (item # rest) \<and> getPortID e = p"
    proof
      fix u
      assume "u \<in> set (?u0 # us)"
      then consider "u = ?u0" | "u \<in> set us" by auto
      then show "\<exists>f e. u = ProgramPendingEntryFn f (m_vlanID c) True \<and>
        (ip f, e) \<in> set (item # rest) \<and> getPortID e = p"
      proof cases
        case 1
        then show ?thesis
          using ipk item True by (intro exI [of _ "m_fields e'"] exI [of _ e]) simp
      next
        case 2
        then obtain f e2 where "u = ProgramPendingEntryFn f (m_vlanID ?c1) True"
          "(ip f, e2) \<in> set rest" "getPortID e2 = p"
          using sub by blast
        then show ?thesis by (intro exI [of _ f] exI [of _ e2]) simp
      qed
    qed
    show ?thesis
      unfolding step
      by (rule exI [of _ c'], rule exI [of _ "?u0 # us"])
         (intro conjI r v' t' q' out' keep' down' sub')
  qed
qed

text \<open>
  C6: portDown(p) on a cache whose map is well formed (one item per key, each entry stored
  under its own address) returns, without touching the tree itself. Every entry whose
  port is p is afterwards pending: MAC cleared, pending flag set, state INCOMPLETE, same
  address; a forced pending-add transform for it has been submitted, and on every snapshot
  in which the VLAN exists and the address is attached that transform yields a snapshot
  whose node for the address is a pending node, whatever node was there. Every entry on
  another port is the same entry afterwards, and committing all the submitted transforms
  leaves its node as it was in every VLAN of every snapshot. No entry is added.
\<close>

theorem portDown_pending:
  assumes "distinct (map fst (m_entries c))"
    and "\<forall>(k, e) \<in> set (m_entries c). getIP e = k"
  shows "\<exists>c' us. portDown pp p c = Inr c' \<and>
     pendingUpdates (m_sw c') = pendingUpdates (m_sw c) @ us \<and>
     appliedState (m_sw c') = appliedState (m_sw c) \<and>
     (\<forall>a e. getCacheEntry c a = Some e \<and> getPortID e = p \<longrightarrow>
        (\<exists>e'. getCacheEntry c' a = Some e' \<and> mac (m_fields e') = None \<and> isPending e' \<and>
           getState e' = INCOMPLETE \<and> getIP e' = a \<and>
           ProgramPendingEntryFn (getFields e') (m_vlanID c) True \<in> set us \<and>
           (\<forall>s vl. getVlanIf s (m_vlanID c) = Some vl \<and> att a (interfaceID (getFields e')) s \<longrightarrow>
              (\<exists>s'. applyUpdate pp att cx (ProgramPendingEntryFn (getFields e') (m_vlanID c) True) s
                       = Inr (Some s') \<and>
                    nodeOf s' (m_vlanID c) a
                       = Some (mkPendingFields pp a (interfaceID (getFields e'))))))) \<and>
     (\<forall>a e. getCacheEntry c a = Some e \<and> getPortID e \<noteq> p \<longrightarrow>
        getCacheEntry c' a = Some e \<and>
        (\<forall>s. \<exists>s'. applyPending pp att cx us s = Inr s' \<and> (\<forall>w. nodeOf s' w a = nodeOf s w a))) \<and>
     (\<forall>a. getCacheEntry c a = None \<longrightarrow> getCacheEntry c' a = None)"
proof -
  have mem_iff: "\<And>a e. getCacheEntry c a = Some e \<longleftrightarrow> (a, e) \<in> set (m_entries c)"
    using assms(1) by (simp add: getCacheEntry_def)
  have none_iff: "\<And>a. getCacheEntry c a = None \<longleftrightarrow> a \<notin> fst ` set (m_entries c)"
    by (simp add: getCacheEntry_def map_of_eq_None_iff)
  have items: "\<forall>(k, e) \<in> set (m_entries c). getCacheEntry c k = Some e \<and> getIP e = k"
    using assms(2) mem_iff by auto
  obtain c' us where r: "portDown_loop pp p (m_entries c) c = Inr c'"
    and v: "m_vlanID c' = m_vlanID c"
    and t: "appliedState (m_sw c') = appliedState (m_sw c)"
    and q: "pendingUpdates (m_sw c') = pendingUpdates (m_sw c) @ us"
    and out: "\<forall>a. a \<notin> fst ` set (m_entries c) \<longrightarrow> getCacheEntry c' a = getCacheEntry c a"
    and keep: "\<forall>k e. (k, e) \<in> set (m_entries c) \<and> getPortID e \<noteq> p \<longrightarrow>
        getCacheEntry c' k = Some e"
    and down: "\<forall>k e. (k, e) \<in> set (m_entries c) \<and> getPortID e = p \<longrightarrow>
        (\<exists>e'. getCacheEntry c' k = Some e' \<and> mac (m_fields e') = None \<and>
           pending (m_fields e') \<and> m_state e' = INCOMPLETE \<and> ip (m_fields e') = k \<and>
           ProgramPendingEntryFn (m_fields e') (m_vlanID c) True \<in> set us)"
    and sub: "\<forall>u \<in> set us. \<exists>f e. u = ProgramPendingEntryFn f (m_vlanID c) True \<and>
        (ip f, e) \<in> set (m_entries c) \<and> getPortID e = p"
    using portDown_loop_effect [OF assms(1) items, of pp p] by (elim exE conjE)
  have run: "portDown pp p c = Inr c'" using r by (simp add: portDown_def)
  have down': "\<forall>a e. getCacheEntry c a = Some e \<and> getPortID e = p \<longrightarrow>
        (\<exists>e'. getCacheEntry c' a = Some e' \<and> mac (m_fields e') = None \<and> isPending e' \<and>
           getState e' = INCOMPLETE \<and> getIP e' = a \<and>
           ProgramPendingEntryFn (getFields e') (m_vlanID c) True \<in> set us \<and>
           (\<forall>s vl. getVlanIf s (m_vlanID c) = Some vl \<and> att a (interfaceID (getFields e')) s \<longrightarrow>
              (\<exists>s'. applyUpdate pp att cx (ProgramPendingEntryFn (getFields e') (m_vlanID c) True) s
                       = Inr (Some s') \<and>
                    nodeOf s' (m_vlanID c) a
                       = Some (mkPendingFields pp a (interfaceID (getFields e'))))))"
  proof (intro allI impI, elim conjE)
    fix a e
    assume "getCacheEntry c a = Some e" and isp: "getPortID e = p"
    then have "(a, e) \<in> set (m_entries c)" by (simp add: mem_iff)
    then obtain e' where e': "getCacheEntry c' a = Some e'" "mac (m_fields e') = None"
        "pending (m_fields e')" "m_state e' = INCOMPLETE" "ip (m_fields e') = a"
        "ProgramPendingEntryFn (m_fields e') (m_vlanID c) True \<in> set us"
      using down isp by blast
    have tr: "\<forall>s vl. getVlanIf s (m_vlanID c) = Some vl \<and> att a (interfaceID (m_fields e')) s \<longrightarrow>
        (\<exists>s'. applyUpdate pp att cx (ProgramPendingEntryFn (m_fields e') (m_vlanID c) True) s
                 = Inr (Some s') \<and>
              nodeOf s' (m_vlanID c) a = Some (mkPendingFields pp a (interfaceID (m_fields e'))))"
    proof (intro allI impI, elim conjE)
      fix s vl
      assume vl: "getVlanIf s (m_vlanID c) = Some vl"
        and at: "att a (interfaceID (m_fields e')) s"
      have at': "att (ip (m_fields e')) (interfaceID (m_fields e')) s" using at e'(5) by simp
      show "\<exists>s'. applyUpdate pp att cx (ProgramPendingEntryFn (m_fields e') (m_vlanID c) True) s
                 = Inr (Some s') \<and>
              nodeOf s' (m_vlanID c) a = Some (mkPendingFields pp a (interfaceID (m_fields e')))"
        using programPendingEntry_updateFn_forced [where att = att and f = "m_fields e'"
            and pp = pp, OF vl at'] e'(5)
        by (simp add: applyUpdate_def)
    qed
    show "\<exists>e'. getCacheEntry c' a = Some e' \<and> mac (m_fields e') = None \<and> isPending e' \<and>
           getState e' = INCOMPLETE \<and> getIP e' = a \<and>
           ProgramPendingEntryFn (getFields e') (m_vlanID c) True \<in> set us \<and>
           (\<forall>s vl. getVlanIf s (m_vlanID c) = Some vl \<and> att a (interfaceID (getFields e')) s \<longrightarrow>
              (\<exists>s'. applyUpdate pp att cx (ProgramPendingEntryFn (getFields e') (m_vlanID c) True) s
                       = Inr (Some s') \<and>
                    nodeOf s' (m_vlanID c) a
                       = Some (mkPendingFields pp a (interfaceID (getFields e')))))"
      unfolding isPending_def getState_def getIP_def getFields_def
      by (rule exI [of _ e']) (intro conjI e' tr)
  qed
  have keep': "\<forall>a e. getCacheEntry c a = Some e \<and> getPortID e \<noteq> p \<longrightarrow>
        getCacheEntry c' a = Some e \<and>
        (\<forall>s. \<exists>s'. applyPending pp att cx us s = Inr s' \<and> (\<forall>w. nodeOf s' w a = nodeOf s w a))"
  proof (intro allI impI, elim conjE)
    fix a e
    assume here: "getCacheEntry c a = Some e" and np: "getPortID e \<noteq> p"
    have mem: "(a, e) \<in> set (m_entries c)" using here by (simp add: mem_iff)
    have same: "getCacheEntry c' a = Some e" using keep mem np by blast
    have away: "\<forall>u \<in> set us. \<exists>f v force. u = ProgramPendingEntryFn f v force \<and> ip f \<noteq> a"
    proof
      fix u
      assume "u \<in> set us"
      then obtain f e2 where u: "u = ProgramPendingEntryFn f (m_vlanID c) True"
        and m2: "(ip f, e2) \<in> set (m_entries c)" and p2: "getPortID e2 = p"
        using sub by blast
      have "ip f \<noteq> a"
      proof
        assume "ip f = a"
        then have "getCacheEntry c a = Some e2" using m2 by (simp add: mem_iff)
        then show False using here np p2 by simp
      qed
      then show "\<exists>f v force. u = ProgramPendingEntryFn f v force \<and> ip f \<noteq> a"
        using u by blast
    qed
    have frame: "\<forall>s. \<exists>s'. applyPending pp att cx us s = Inr s' \<and>
        (\<forall>w. nodeOf s' w a = nodeOf s w a)"
      using applyPending_frame [OF away] by blast
    show "getCacheEntry c' a = Some e \<and>
        (\<forall>s. \<exists>s'. applyPending pp att cx us s = Inr s' \<and> (\<forall>w. nodeOf s' w a = nodeOf s w a))"
      using same frame by (rule conjI)
  qed
  have none': "\<forall>a. getCacheEntry c a = None \<longrightarrow> getCacheEntry c' a = None"
    using out none_iff by simp
  show ?thesis
    by (rule exI [of _ c'], rule exI [of _ us]) (intro conjI run q t down' keep' none')
qed

theorem portDown_pending_witness:
  "distinct (map fst (m_entries ex_cache_two)) \<and>
   m_entries ex_cache_two = [(5, mkEntry ex_fields REACHABLE), (6, mkEntry ex_other_fields STALE)] \<and>
   getIP (mkEntry ex_fields REACHABLE) = 5 \<and> getIP (mkEntry ex_other_fields STALE) = 6 \<and>
   getCacheEntry ex_cache_two 5 = Some (mkEntry ex_fields REACHABLE) \<and>
   getPortID (mkEntry ex_fields REACHABLE) = 2 \<and>
   getCacheEntry ex_cache_two 6 = Some (mkEntry ex_other_fields STALE) \<and>
   getPortID (mkEntry ex_other_fields STALE) \<noteq> 2 \<and>
   getCacheEntry ex_cache_two 8 = None \<and>
   getVlanIf ex_state_one (m_vlanID ex_cache_two) = Some ex_vlan_one \<and>
   (\<exists>c' us e' s' s2. portDown 0 2 ex_cache_two = Inr c' \<and>
      pendingUpdates (m_sw c') = pendingUpdates (m_sw ex_cache_two) @ us \<and>
      getCacheEntry c' 5 = Some e' \<and> mac (m_fields e') = None \<and> isPending e' \<and>
      getState e' = INCOMPLETE \<and>
      applyUpdate 0 ex_att ex_cache_two
        (ProgramPendingEntryFn (getFields e') (m_vlanID ex_cache_two) True) ex_state_one
        = Inr (Some s') \<and>
      nodeOf s' (m_vlanID ex_cache_two) 5 = Some (mkPendingFields 0 5 (interfaceID (getFields e'))) \<and>
      getCacheEntry c' 6 = Some (mkEntry ex_other_fields STALE) \<and>
      applyPending 0 ex_att ex_cache_two us ex_state_one = Inr s2 \<and>
      nodeOf s2 (m_vlanID ex_cache_two) 6 = nodeOf ex_state_one (m_vlanID ex_cache_two) 6 \<and>
      getCacheEntry c' 8 = None)"
proof -
  have d: "distinct (map fst (m_entries ex_cache_two))"
    by (simp add: ex_cache_two_def)
  have inv: "\<forall>(k, e) \<in> set (m_entries ex_cache_two). getIP e = k"
    by (simp add: ex_cache_two_def getIP_def mkEntry_def ex_fields_def ex_other_fields_def
        mkEntryFields_def)
  have e5: "getCacheEntry ex_cache_two 5 = Some (mkEntry ex_fields REACHABLE)"
    by (simp add: getCacheEntry_def ex_cache_two_def)
  have p5: "getPortID (mkEntry ex_fields REACHABLE) = 2"
    by (simp add: getPortID_def mkEntry_def ex_fields_def mkEntryFields_def)
  have e6: "getCacheEntry ex_cache_two 6 = Some (mkEntry ex_other_fields STALE)"
    by (simp add: getCacheEntry_def ex_cache_two_def)
  have p6: "getPortID (mkEntry ex_other_fields STALE) \<noteq> 2"
    by (simp add: getPortID_def mkEntry_def ex_other_fields_def mkEntryFields_def)
  have e8: "getCacheEntry ex_cache_two 8 = None"
    by (simp add: getCacheEntry_def ex_cache_two_def)
  have vl: "getVlanIf ex_state_one (m_vlanID ex_cache_two) = Some ex_vlan_one"
    by (simp add: getVlanIf_def ex_state_one_def ex_cache_two_def)
  obtain c' us where run: "portDown 0 2 ex_cache_two = Inr c'"
    and q: "pendingUpdates (m_sw c') = pendingUpdates (m_sw ex_cache_two) @ us"
    and "appliedState (m_sw c') = appliedState (m_sw ex_cache_two)"
    and down: "\<forall>a e. getCacheEntry ex_cache_two a = Some e \<and> getPortID e = 2 \<longrightarrow>
        (\<exists>e'. getCacheEntry c' a = Some e' \<and> mac (m_fields e') = None \<and> isPending e' \<and>
           getState e' = INCOMPLETE \<and> getIP e' = a \<and>
           ProgramPendingEntryFn (getFields e') (m_vlanID ex_cache_two) True \<in> set us \<and>
           (\<forall>s vl. getVlanIf s (m_vlanID ex_cache_two) = Some vl \<and>
                ex_att a (interfaceID (getFields e')) s \<longrightarrow>
              (\<exists>s'. applyUpdate 0 ex_att ex_cache_two
                       (ProgramPendingEntryFn (getFields e') (m_vlanID ex_cache_two) True) s
                       = Inr (Some s') \<and>
                    nodeOf s' (m_vlanID ex_cache_two) a
                       = Some (mkPendingFields 0 a (interfaceID (getFields e'))))))"
    and keep: "\<forall>a e. getCacheEntry ex_cache_two a = Some e \<and> getPortID e \<noteq> 2 \<longrightarrow>
        getCacheEntry c' a = Some e \<and>
        (\<forall>s. \<exists>s'. applyPending 0 ex_att ex_cache_two us s = Inr s' \<and>
           (\<forall>w. nodeOf s' w a = nodeOf s w a))"
    and none: "\<forall>a. getCacheEntry ex_cache_two a = None \<longrightarrow> getCacheEntry c' a = None"
    using portDown_pending [OF d inv, of 0 2 ex_att ex_cache_two] by (elim exE conjE)
  obtain e' where e': "getCacheEntry c' 5 = Some e'" "mac (m_fields e') = None" "isPending e'"
      "getState e' = INCOMPLETE"
    and tr: "\<forall>s vl. getVlanIf s (m_vlanID ex_cache_two) = Some vl \<and>
                ex_att 5 (interfaceID (getFields e')) s \<longrightarrow>
              (\<exists>s'. applyUpdate 0 ex_att ex_cache_two
                       (ProgramPendingEntryFn (getFields e') (m_vlanID ex_cache_two) True) s
                       = Inr (Some s') \<and>
                    nodeOf s' (m_vlanID ex_cache_two) 5
                       = Some (mkPendingFields 0 5 (interfaceID (getFields e'))))"
    using down e5 p5 by blast
  have at: "ex_att 5 (interfaceID (getFields e')) ex_state_one" by (simp add: ex_att_def)
  obtain s' where s': "applyUpdate 0 ex_att ex_cache_two
        (ProgramPendingEntryFn (getFields e') (m_vlanID ex_cache_two) True) ex_state_one
        = Inr (Some s')"
      "nodeOf s' (m_vlanID ex_cache_two) 5 = Some (mkPendingFields 0 5 (interfaceID (getFields e')))"
    using tr vl at by blast
  have k6: "getCacheEntry c' 6 = Some (mkEntry ex_other_fields STALE)"
    using keep e6 p6 by blast
  obtain s2 where s2: "applyPending 0 ex_att ex_cache_two us ex_state_one = Inr s2"
      "nodeOf s2 (m_vlanID ex_cache_two) 6 = nodeOf ex_state_one (m_vlanID ex_cache_two) 6"
    using keep e6 p6 by blast
  have n8: "getCacheEntry c' 8 = None" using none e8 by blast
  have "\<exists>c' us e' s' s2. portDown 0 2 ex_cache_two = Inr c' \<and>
      pendingUpdates (m_sw c') = pendingUpdates (m_sw ex_cache_two) @ us \<and>
      getCacheEntry c' 5 = Some e' \<and> mac (m_fields e') = None \<and> isPending e' \<and>
      getState e' = INCOMPLETE \<and>
      applyUpdate 0 ex_att ex_cache_two
        (ProgramPendingEntryFn (getFields e') (m_vlanID ex_cache_two) True) ex_state_one
        = Inr (Some s') \<and>
      nodeOf s' (m_vlanID ex_cache_two) 5 = Some (mkPendingFields 0 5 (interfaceID (getFields e'))) \<and>
      getCacheEntry c' 6 = Some (mkEntry ex_other_fields STALE) \<and>
      applyPending 0 ex_att ex_cache_two us ex_state_one = Inr s2 \<and>
      nodeOf s2 (m_vlanID ex_cache_two) 6 = nodeOf ex_state_one (m_vlanID ex_cache_two) 6 \<and>
      getCacheEntry c' 8 = None"
    by (rule exI [of _ c'], rule exI [of _ us], rule exI [of _ e'], rule exI [of _ s'],
        rule exI [of _ s2]) (intro conjI run q e' s' k6 s2 n8)
  moreover have "m_entries ex_cache_two =
      [(5, mkEntry ex_fields REACHABLE), (6, mkEntry ex_other_fields STALE)]"
    by (simp add: ex_cache_two_def)
  moreover have "getIP (mkEntry ex_fields REACHABLE) = 5"
    by (simp add: getIP_def mkEntry_def ex_fields_def mkEntryFields_def)
  moreover have "getIP (mkEntry ex_other_fields STALE) = 6"
    by (simp add: getIP_def mkEntry_def ex_other_fields_def mkEntryFields_def)
  ultimately show ?thesis
    using d e5 p5 e6 p6 e8 vl by (intro conjI)
qed

subsection \<open>The map stays well formed\<close>

text \<open>
  The map is well formed when it has one item per key and every entry is stored under its
  own address. The cache starts with an empty map, and every operation keeps the map well
  formed, so the hypotheses of the property of portDown hold in every state the cache
  reaches.
\<close>

lemma set_update_subset: "set (AList.update k v al) \<subseteq> insert (k, v) (set al)"
  by (induction al) auto

lemma wellFormed_update:
  assumes "wellFormed c" and "getIP v = k"
  shows "wellFormed (c\<lparr>m_entries := AList.update k v (m_entries c)\<rparr>)"
proof -
  have "distinct (map fst (AList.update k v (m_entries c)))"
    using assms(1) by (simp add: wellFormed_def distinct_update)
  moreover have "\<forall>(k', e) \<in> set (AList.update k v (m_entries c)). getIP e = k'"
    using assms set_update_subset [of k v "m_entries c"] by (auto simp: wellFormed_def)
  ultimately show ?thesis by (simp add: wellFormed_def)
qed

lemma wellFormed_entry:
  "wellFormed c \<Longrightarrow> getCacheEntry c a = Some e \<Longrightarrow> getIP e = a"
  by (auto simp: wellFormed_def getCacheEntry_def dest!: map_of_SomeD)

lemma wellFormed_sw: "wellFormed (c\<lparr>m_sw := sw\<rparr>) = wellFormed c"
  by (simp add: wellFormed_def)

lemma wellFormed_setEntryInternal:
  assumes "wellFormed c"
  shows "wellFormed (snd (setEntryInternal f st add c))"
proof (cases "getCacheEntry c (ip f)")
  case None
  show ?thesis
  proof (cases add)
    case True
    have "wellFormed (c\<lparr>m_entries := AList.update (ip f) (mkEntry f st) (m_entries c)\<rparr>)"
      by (rule wellFormed_update [OF assms]) (simp add: getIP_def mkEntry_def)
    then show ?thesis
      using None True
      by (simp add: setEntryInternal_def Let_def setCacheEntry_def getIP_def mkEntry_def)
  next
    case False
    then show ?thesis using None assms by (simp add: setEntryInternal_def)
  qed
next
  case (Some e0)
  let ?e = "Entry_updateState (if \<not> fieldsMatch e0 f then updateFields e0 f else e0) st"
  have "getIP e0 = ip f" by (rule wellFormed_entry [OF assms Some])
  then have "getIP ?e = ip f" unfolding getIP_def by (simp only: updated_entry)
  then have "wellFormed (c\<lparr>m_entries := AList.update (ip f) ?e (m_entries c)\<rparr>)"
    by (rule wellFormed_update [OF assms])
  then show ?thesis by (simp add: setEntryInternal_present [OF Some])
qed

lemma wellFormed_programEntry:
  "wellFormed c \<Longrightarrow> programEntry e c = Inr c' \<Longrightarrow> wellFormed c'"
  by (auto simp: programEntry_def wellFormed_sw split: if_splits)

lemma wellFormed_programPendingEntry:
  "wellFormed c \<Longrightarrow> programPendingEntry e force c = Inr c' \<Longrightarrow> wellFormed c'"
  by (auto simp: programPendingEntry_def wellFormed_sw split: if_splits)

lemma wellFormed_setEntry:
  assumes "wellFormed c" and "setEntry a m p st c = Inr c'"
  shows "wellFormed c'"
proof -
  obtain r c1 where i: "setEntryInternal (mkEntryFields a m p (m_intfID c)) st True c = (r, c1)"
    by (cases "setEntryInternal (mkEntryFields a m p (m_intfID c)) st True c")
  have "wellFormed c1"
    using wellFormed_setEntryInternal [OF assms(1), of "mkEntryFields a m p (m_intfID c)" st True] i
    by simp
  then show ?thesis
    using assms(2) i by (cases r) (auto simp: setEntry_def dest: wellFormed_programEntry)
qed

lemma wellFormed_setExistingEntry:
  assumes "wellFormed c" and "setExistingEntry a m p st c = Inr c'"
  shows "wellFormed c'"
proof -
  obtain r c1 where i: "setEntryInternal (mkEntryFields a m p (m_intfID c)) st False c = (r, c1)"
    by (cases "setEntryInternal (mkEntryFields a m p (m_intfID c)) st False c")
  have "wellFormed c1"
    using wellFormed_setEntryInternal [OF assms(1), of "mkEntryFields a m p (m_intfID c)" st False] i
    by simp
  then show ?thesis
    using assms(2) i by (cases r) (auto simp: setExistingEntry_def dest: wellFormed_programEntry)
qed

lemma wellFormed_setPendingEntry:
  assumes "wellFormed c" and "setPendingEntry pp a force c = Inr c'"
  shows "wellFormed c'"
proof (cases "\<not> force \<and> getCacheEntry c a \<noteq> None")
  case True
  then show ?thesis using assms by (simp add: setPendingEntry_def)
next
  case False
  obtain r c1 where
    i: "setEntryInternal (mkPendingFields pp a (m_intfID c)) INCOMPLETE True c = (r, c1)"
    by (cases "setEntryInternal (mkPendingFields pp a (m_intfID c)) INCOMPLETE True c")
  have "wellFormed c1"
    using wellFormed_setEntryInternal [OF assms(1),
        of "mkPendingFields pp a (m_intfID c)" INCOMPLETE True] i
    by simp
  then show ?thesis
    using assms(2) i False
    by (cases r) (auto simp: setPendingEntry_def dest: wellFormed_programPendingEntry)
qed

lemma wellFormed_portDown_loop:
  "wellFormed c \<Longrightarrow> portDown_loop pp p items c = Inr c' \<Longrightarrow> wellFormed c'"
proof (induction items arbitrary: c)
  case Nil
  then show ?case by simp
next
  case (Cons item items)
  show ?case
  proof (cases "getPortID (snd item) \<noteq> p")
    case True
    then show ?thesis using Cons by simp
  next
    case False
    obtain c1 where s: "setPendingEntry pp (getIP (snd item)) True c = Inr c1"
      using setPendingEntry_returns [of pp "getIP (snd item)" True c] by (elim exE)
    have "wellFormed c1" by (rule wellFormed_setPendingEntry [OF Cons.prems(1) s])
    then show ?thesis using Cons.IH [of c1] Cons.prems(2) False s by simp
  qed
qed

lemma wellFormed_repopulate: "wellFormed c \<Longrightarrow> wellFormed (repopulate table c)"
  by (induction table arbitrary: c) (simp_all add: Let_def wellFormed_setEntryInternal)

lemma wellFormed_call:
  "wellFormed c \<Longrightarrow> call pp x c = Inr c' \<Longrightarrow> wellFormed c'"
  by (cases x)
     (auto simp: portDown_def
        intro: wellFormed_setEntry wellFormed_setExistingEntry wellFormed_setPendingEntry
          wellFormed_portDown_loop wellFormed_repopulate)

lemma wellFormed_calls:
  "wellFormed c \<Longrightarrow> calls pp xs c = Inr c' \<Longrightarrow> wellFormed c'"
proof (induction xs arbitrary: c)
  case Nil
  then show ?case by simp
next
  case (Cons x xs)
  obtain c1 where s: "call pp x c = Inr c1" using call_returns [of pp x c] by (elim exE)
  have "wellFormed c1" by (rule wellFormed_call [OF Cons.prems(1) s])
  then show ?case using Cons.IH [of c1] Cons.prems(2) s by simp
qed

lemma wellFormed_empty: "wellFormed (c\<lparr>m_entries := []\<rparr>)"
  by (simp add: wellFormed_def)

lemma wellFormed_delete:
  assumes "wellFormed c"
  shows "wellFormed (c\<lparr>m_entries := AList.delete a (m_entries c)\<rparr>)"
proof -
  have "distinct (map fst (AList.delete a (m_entries c)))"
    using assms by (simp add: wellFormed_def distinct_delete)
  moreover have "set (AList.delete a (m_entries c)) \<subseteq> set (m_entries c)"
    by (auto simp: AList.delete_eq)
  ultimately show ?thesis using assms by (auto simp: wellFormed_def)
qed

lemma wellFormed_flushEntry:
  assumes "wellFormed c" and "flushEntry pp att a blocking c = Inr (r, c')"
  shows "wellFormed c'"
proof (cases "getCacheEntry c a")
  case None
  then show ?thesis using assms by (simp add: flushEntry_absent)
next
  case (Some e)
  have d: "wellFormed (c\<lparr>m_entries := AList.delete a (m_entries c)\<rparr>)"
    by (rule wellFormed_delete [OF assms(1)])
  have "\<exists>sw. c' = c\<lparr>m_entries := AList.delete a (m_entries c), m_sw := sw\<rparr>"
    using assms(2) Some
    by (auto simp: flushEntry_def removeEntry_present split: if_splits sum.splits prod.splits)
  then show ?thesis using d by (auto simp: wellFormed_def)
qed

end
